theory Spec2Isabelle
  imports Main
begin

section \<open>Data model\<close>

text \<open>
  Property values are opaque to the engine: it only compares them with \<open>!=\<close> and reads
  \<open>dict.get\<close>, which answers \<open>None\<close> for a missing key. The model keeps Python's
  \<open>None\<close> as a value of its own, next to integers, strings and handler objects
  (compared by identity, so a handler is its identity).
\<close>

datatype pyval = PNone | PInt int | PStr string | PHandler nat

text \<open>
  A property map is a Python \<open>dict\<close> with string keys. Iteration follows insertion
  order, so the model is an association list (keys pairwise distinct in a dict).
\<close>

type_synonym props = "(string \<times> pyval) list"

definition has_key :: "props \<Rightarrow> string \<Rightarrow> bool" where
  "has_key d k = (k \<in> fst ` set d)"

text \<open>\<open>d.get(k)\<close>: the stored value, \<open>None\<close> when the key is missing.\<close>

definition get :: "props \<Rightarrow> string \<Rightarrow> pyval" where
  "get d k = (case map_of d k of None \<Rightarrow> PNone | Some v \<Rightarrow> v)"

text \<open>
  The calls the engine makes on the renderer, in the order it makes them, and the
  invocation of the render callback. Backend nodes are handles.
\<close>

type_synonym dom = nat

datatype node_type = Host string | Component nat

datatype call =
    CreateElement "node_type option" dom
  | Insert dom dom
  | Remove dom dom
  | SetAttribute dom string pyval
  | ClearAttribute dom string pyval
  | AddEventListener dom string pyval
  | RemoveEventListener dom string pyval
  | RenderCallback nat

section \<open>update_dom\<close>

text \<open>\<open>key.startswith("on")\<close>\<close>

definition is_event :: "string \<Rightarrow> bool" where
  "is_event key = (take 2 key = ''on'')"

definition is_property :: "string \<Rightarrow> bool" where
  "is_property key = (\<not> is_event key)"

text \<open>\<open>val != other.get(key)\<close>\<close>

definition is_new :: "pyval \<Rightarrow> props \<Rightarrow> string \<Rightarrow> bool" where
  "is_new v other key = (v \<noteq> get other key)"

text \<open>
  \<open>str.lower\<close> on the ASCII letters (a \<open>char\<close> is a byte); property names with
  letters outside ASCII are not modelled.
\<close>

definition lower_char :: "char \<Rightarrow> char" where
  "lower_char c =
     (case map_of (zip ''ABCDEFGHIJKLMNOPQRSTUVWXYZ'' ''abcdefghijklmnopqrstuvwxyz'') c of
        Some l \<Rightarrow> l
      | None \<Rightarrow> c)"

text \<open>\<open>name.lower()[2:]\<close>\<close>

definition event_type :: "string \<Rightarrow> string" where
  "event_type name = drop 2 (map lower_char name)"

text \<open>The four loops of \<open>update_dom\<close>, each giving the calls it makes in order.\<close>

definition remove_old_listeners :: "dom \<Rightarrow> props \<Rightarrow> props \<Rightarrow> call list" where
  "remove_old_listeners d prev_props next_props =
     concat (map (\<lambda>(name, v).
        if \<not> is_event name then []
        else if \<not> has_key next_props name \<or> \<not> is_new v next_props name then []
        else [RemoveEventListener d (event_type name) v]) prev_props)"

definition remove_old_properties :: "dom \<Rightarrow> props \<Rightarrow> props \<Rightarrow> call list" where
  "remove_old_properties d prev_props next_props =
     concat (map (\<lambda>(key, v).
        if \<not> is_property key then []
        else if has_key next_props key then []
        else [ClearAttribute d key v]) prev_props)"

definition set_new_properties :: "dom \<Rightarrow> props \<Rightarrow> props \<Rightarrow> call list" where
  "set_new_properties d prev_props next_props =
     concat (map (\<lambda>(key, v).
        if \<not> is_property key then []
        else if \<not> is_new v prev_props key then []
        else [SetAttribute d key v]) next_props)"

definition add_new_listeners :: "dom \<Rightarrow> props \<Rightarrow> props \<Rightarrow> call list" where
  "add_new_listeners d prev_props next_props =
     concat (map (\<lambda>(name, v).
        if \<not> is_event name then []
        else if \<not> is_new (get prev_props name) next_props name then []
        else [AddEventListener d (event_type name) v]) next_props)"

definition update_dom :: "dom \<Rightarrow> props \<Rightarrow> props \<Rightarrow> call list" where
  "update_dom d prev_props next_props =
     remove_old_listeners d prev_props next_props @
     remove_old_properties d prev_props next_props @
     set_new_properties d prev_props next_props @
     add_new_listeners d prev_props next_props"

text \<open>
  Reading the calls back: the attribute calls on one key, the listener calls on one
  event type, and a dict with one key deleted (\<open>del d[k]\<close>).
\<close>

definition on_attribute :: "string \<Rightarrow> call \<Rightarrow> bool" where
  "on_attribute k c = (case c of SetAttribute _ k' _ \<Rightarrow> k' = k | ClearAttribute _ k' _ \<Rightarrow> k' = k | _ \<Rightarrow> False)"

definition on_event :: "string \<Rightarrow> call \<Rightarrow> bool" where
  "on_event t c = (case c of AddEventListener _ t' _ \<Rightarrow> t' = t | RemoveEventListener _ t' _ \<Rightarrow> t' = t | _ \<Rightarrow> False)"

definition del_key :: "string \<Rightarrow> props \<Rightarrow> props" where
  "del_key k d = filter (\<lambda>(k', v). k' \<noteq> k) d"


section \<open>Fibers and the engine state\<close>

datatype EffectTag = UPDATE | PLACEMENT | DELETION

datatype EventLoopType = DEFAULT | QT | SYNC

text \<open>
  An element description. A type is a backend tag or a function component; Python
  compares functions by identity, so a component is named by a number and the
  functions themselves are a table of the environment.
\<close>

datatype vnode =
  VNode (vtype: node_type) (vprops: props) (vchildren: "vnode list") (vkey: "pyval option")

type_synonym ref = nat

text \<open>
  The handle \<open>watch(...)\<close> returns: the fiber whose \<open>state_updated\<close> it calls and
  its \<open>sync\<close> flag.
\<close>

datatype watch = Watch ref bool

text \<open>
  Modelled from the spec: the \<open>Fiber\<close> dataclass is declared in \<open>types.py\<close>, which is
  not among the sources. Its fields are those the engine reads and writes (the spec's
  work unit); each is absent (\<open>None\<close>) until set, which is what \<open>Fiber()\<close> gives.
\<close>

record fiber =
  type :: "node_type option"
  props :: "props option"
  props_snapshot :: "props option"
  children :: "vnode list option"
  dom :: "dom option"
  parent :: "ref option"
  child :: "ref option"
  sibling :: "ref option"
  alternate :: "ref option"
  effect_tag :: "EffectTag option"
  watcher :: "watch option"

definition Fiber :: fiber where
  "Fiber = \<lparr> type = None, props = None, props_snapshot = None, children = None,
             dom = None, parent = None, child = None, sibling = None, alternate = None,
             effect_tag = None, watcher = None \<rparr>"

text \<open>
  The engine: the fibers live in a store addressed by references (every fiber is a
  shared mutable object), \<open>next_ref\<close> is the first address not yet handed out.
  The renderer is seen through the calls made on it (\<open>trace\<close>) and the handles it
  hands out (\<open>next_dom\<close>); the host loop through the \<open>work_loop\<close> invocations it
  was asked to run, each with its deadline (\<open>scheduled\<close>); the clock through the
  number of readings taken (\<open>ticks\<close>).
\<close>

record engine =
  heap :: "ref \<Rightarrow> fiber"
  next_ref :: ref
  next_dom :: dom
  trace :: "call list"
  event_loop_type :: EventLoopType
  current_root :: "ref option"
  wip_root :: "ref option"
  next_unit_of_work :: "ref option"
  deletions :: "ref list"
  render_callback :: "nat option"
  request :: bool
  scheduled :: "int list"
  work :: "ref option list"
  ticks :: nat

text \<open>
  What the engine takes from outside: the truth value of an \<open>EventLoopType\<close> member
  (the enumeration is declared in \<open>types.py\<close>, not among the sources; \<open>work_loop\<close>
  tests \<open>not self.event_loop_type\<close>), the function components, and the readings of
  \<open>time.perf_counter_ns()\<close> in the order they are taken.
\<close>

record env =
  truthy :: "EventLoopType \<Rightarrow> bool"
  components :: "nat \<Rightarrow> props option \<Rightarrow> vnode"
  perf_counter_ns :: "nat \<Rightarrow> int"

datatype error = AttributeError | TypeError

definition upd :: "ref \<Rightarrow> (fiber \<Rightarrow> fiber) \<Rightarrow> engine \<Rightarrow> engine" where
  "upd r f e = e\<lparr>heap := (heap e)(r := f (heap e r))\<rparr>"

text \<open>\<open>Fiber()\<close>: a new object at a new address.\<close>

definition alloc :: "engine \<Rightarrow> ref \<times> engine" where
  "alloc e = (next_ref e, e\<lparr>heap := (heap e)(next_ref e := Fiber), next_ref := Suc (next_ref e)\<rparr>)"

text \<open>\<open>x or Fiber()\<close>\<close>

definition or_Fiber :: "ref option \<Rightarrow> engine \<Rightarrow> ref \<times> engine" where
  "or_Fiber x e = (case x of Some r \<Rightarrow> (r, e) | None \<Rightarrow> alloc e)"

definition emit :: "call list \<Rightarrow> engine \<Rightarrow> engine" where
  "emit cs e = e\<lparr>trace := trace e @ cs\<rparr>"

section \<open>reconcile_children\<close>

text \<open>Truth value of a property map: \<open>None\<close> and the empty dict are false.\<close>

definition props_truthy :: "props option \<Rightarrow> bool" where
  "props_truthy p = (case p of None \<Rightarrow> False | Some d \<Rightarrow> d \<noteq> [])"

text \<open>\<open>old_fiber and element and element.type == old_fiber.type\<close>\<close>

definition same_type :: "(ref \<Rightarrow> fiber) \<Rightarrow> ref option \<Rightarrow> vnode option \<Rightarrow> bool" where
  "same_type h old_fiber element =
    (case (old_fiber, element) of
       (Some ol, Some el) \<Rightarrow> Some (vtype el) = type (h ol)
     | _ \<Rightarrow> False)"

text \<open>
  \<open>if same_type:\<close> the fiber for updating a node. It is the old fiber's alternate
  if there is one, a new fiber otherwise; the assignments are written as one update
  (the only field read, \<open>old_fiber.dom\<close>, is not among those assigned before it).
\<close>

definition configure_update ::
  "ref \<Rightarrow> ref option \<Rightarrow> vnode option \<Rightarrow> bool \<Rightarrow> engine \<Rightarrow> ref option \<times> engine" where
  "configure_update wip_fiber old_fiber element same e =
    (case (old_fiber, element) of
       (Some ol, Some el) \<Rightarrow>
         if same then
           (let (n, e') = or_Fiber (alternate (heap e ol)) e in
            (Some n, upd n (\<lambda>f. f\<lparr>type := Some (vtype el), props := Some (vprops el),
                       props_snapshot := Some (vprops el), children := Some (vchildren el),
                       dom := dom (heap e' ol), parent := Some wip_fiber,
                       alternate := Some ol, child := None, sibling := None,
                       effect_tag := Some UPDATE, watcher := None\<rparr>) e'))
         else (None, e)
     | _ \<Rightarrow> (None, e))"

text \<open>\<open>if element and not same_type:\<close> the fiber for creating a node.\<close>

definition configure_placement ::
  "ref \<Rightarrow> ref option \<Rightarrow> vnode option \<Rightarrow> bool \<Rightarrow> ref option \<Rightarrow> engine \<Rightarrow> ref option \<times> engine" where
  "configure_placement wip_fiber old_fiber element same new_fiber e =
    (case element of
       Some el \<Rightarrow>
         if \<not> same then
           (let (n, e') = or_Fiber (case old_fiber of None \<Rightarrow> None
                                    | Some ol \<Rightarrow> alternate (heap e ol)) e in
            (Some n, upd n (\<lambda>f. f\<lparr>type := Some (vtype el), props := Some (vprops el),
                       props_snapshot := Some (vprops el), children := Some (vchildren el),
                       dom := None, parent := Some wip_fiber,
                       alternate := None, child := None, sibling := None,
                       effect_tag := Some PLACEMENT, watcher := None\<rparr>) e'))
         else (new_fiber, e)
     | None \<Rightarrow> (new_fiber, e))"

text \<open>\<open>if old_fiber and not same_type:\<close> the old fiber is marked and listed.\<close>

definition mark_deletion :: "ref option \<Rightarrow> bool \<Rightarrow> engine \<Rightarrow> engine" where
  "mark_deletion old_fiber same e =
    (case old_fiber of
       Some ol \<Rightarrow>
         if \<not> same then
           (upd ol (\<lambda>f. f\<lparr>effect_tag := Some DELETION\<rparr>) e)\<lparr>deletions := deletions e @ [ol]\<rparr>
         else e
     | None \<Rightarrow> e)"

text \<open>
  The end of the loop body: the new fiber becomes the child of the parent or the
  sibling of the fiber before it. \<open>prev_sibling.sibling\<close> on \<open>None\<close> fails.
\<close>

definition link_fiber ::
  "ref \<Rightarrow> nat \<Rightarrow> vnode option \<Rightarrow> ref option \<Rightarrow> ref option \<Rightarrow> engine \<Rightarrow> error + engine" where
  "link_fiber wip_fiber index element prev_sibling new_fiber e =
    (if index = 0 then Inr (upd wip_fiber (\<lambda>f. f\<lparr>child := new_fiber\<rparr>) e)
     else if element \<noteq> None then
       (case prev_sibling of
          None \<Rightarrow> Inl AttributeError
        | Some p \<Rightarrow> Inr (upd p (\<lambda>f. f\<lparr>sibling := new_fiber\<rparr>) e))
     else Inr e)"

text \<open>
  One pass through the body of the \<open>while\<close> loop: the new values of \<open>old_fiber\<close> and
  \<open>prev_sibling\<close> and the engine. The statements run in the source's order, each on
  the store the previous one left.
\<close>

definition reconcile_step ::
  "ref \<Rightarrow> vnode list \<Rightarrow> nat \<Rightarrow> ref option \<Rightarrow> ref option \<Rightarrow> engine
     \<Rightarrow> error + (ref option \<times> ref option \<times> engine)" where
  "reconcile_step wip_fiber elements index old_fiber prev_sibling e =
    (let element = (if index < length elements then Some (elements ! index) else None);
         same = same_type (heap e) old_fiber element;
         (new_fiber, e1) = configure_update wip_fiber old_fiber element same e;
         (new_fiber, e2) = configure_placement wip_fiber old_fiber element same new_fiber e1;
         e3 = mark_deletion old_fiber same e2;
         old_fiber' = (case old_fiber of Some ol \<Rightarrow> sibling (heap e3 ol) | None \<Rightarrow> None)
     in case link_fiber wip_fiber index element prev_sibling new_fiber e3 of
          Inl err \<Rightarrow> Inl err
        | Inr e4 \<Rightarrow> Inr (old_fiber', new_fiber, e4))"

text \<open>
  The \<open>while index < len(elements) or old_fiber\<close> loop. The chain of old fibers is
  followed through the store, so the loop need not end: \<open>None\<close> is the run that
  does not return.
\<close>

partial_function (option) reconcile_loop ::
  "ref \<Rightarrow> vnode list \<Rightarrow> nat \<Rightarrow> ref option \<Rightarrow> ref option \<Rightarrow> engine
     \<Rightarrow> (error + engine) option" where
  "reconcile_loop wip_fiber elements index old_fiber prev_sibling e =
    (if index < length elements \<or> old_fiber \<noteq> None then
       (case reconcile_step wip_fiber elements index old_fiber prev_sibling e of
          Inl err \<Rightarrow> Some (Inl err)
        | Inr (old_fiber', prev_sibling', e') \<Rightarrow>
            reconcile_loop wip_fiber elements (index + 1) old_fiber' prev_sibling' e')
     else Some (Inr e))"

text \<open>
  The two steps before the loop: the fiber subscribes a watch to its props (if it
  has props and a node, and no watch yet), and the watch of the first old child is
  cleared.
\<close>

definition watch_props :: "ref \<Rightarrow> engine \<Rightarrow> engine" where
  "watch_props wip_fiber e =
    (if props_truthy (props (heap e wip_fiber))
        \<and> dom (heap e wip_fiber) \<noteq> None \<and> watcher (heap e wip_fiber) = None
     then upd wip_fiber
            (\<lambda>f. f\<lparr>watcher := Some (Watch wip_fiber (event_loop_type e = SYNC))\<rparr>) e
     else e)"

definition clear_old_watcher :: "ref option \<Rightarrow> engine \<Rightarrow> engine" where
  "clear_old_watcher old_fiber e =
    (case old_fiber of
       Some ol \<Rightarrow> if props_truthy (props (heap e ol))
                  then upd ol (\<lambda>f. f\<lparr>watcher := None\<rparr>) e else e
     | None \<Rightarrow> e)"

text \<open>\<open>wip_fiber.alternate and wip_fiber.alternate.child\<close>\<close>

definition old_child :: "(ref \<Rightarrow> fiber) \<Rightarrow> ref \<Rightarrow> ref option" where
  "old_child h wip_fiber = (case alternate (h wip_fiber) of None \<Rightarrow> None | Some a \<Rightarrow> child (h a))"

definition reconcile_children :: "ref \<Rightarrow> vnode list \<Rightarrow> engine \<Rightarrow> (error + engine) option" where
  "reconcile_children wip_fiber elements e =
     reconcile_loop wip_fiber elements 0 (old_child (heap e) wip_fiber) None
       (clear_old_watcher (old_child (heap e) wip_fiber) (watch_props wip_fiber e))"

section \<open>Units of work\<close>

text \<open>
  \<open>create_dom\<close>: the renderer hands out a new node, and \<open>update_dom\<close> runs against
  the empty previous map. \<open>fiber.props\<close> of \<open>None\<close> fails at \<open>next_props.items()\<close>.
\<close>

definition create_dom :: "ref \<Rightarrow> engine \<Rightarrow> error + (dom \<times> engine)" where
  "create_dom fb e =
    (let d = next_dom e;
         e1 = emit [CreateElement (type (heap e fb)) d] (e\<lparr>next_dom := Suc d\<rparr>)
     in case props (heap e1 fb) of
          None \<Rightarrow> Inl AttributeError
        | Some p \<Rightarrow> Inr (d, emit (update_dom d [] p) e1))"

definition update_function_component :: "env \<Rightarrow> ref \<Rightarrow> engine \<Rightarrow> (error + engine) option" where
  "update_function_component ev fb e =
    (case type (heap e fb) of
       Some (Component c) \<Rightarrow> reconcile_children fb [components ev c (props (heap e fb))] e
     | _ \<Rightarrow> Some (Inl TypeError))"

text \<open>\<open>len(elements)\<close> of \<open>None\<close> is a TypeError.\<close>

definition update_host_component :: "ref \<Rightarrow> engine \<Rightarrow> (error + engine) option" where
  "update_host_component fb e =
    (case (if dom (heap e fb) = None
           then (case create_dom fb e of
                   Inl err \<Rightarrow> Inl err
                 | Inr (d, e') \<Rightarrow> Inr (upd fb (\<lambda>f. f\<lparr>dom := Some d\<rparr>) e'))
           else Inr e) of
       Inl err \<Rightarrow> Some (Inl err)
     | Inr e1 \<Rightarrow>
         (case children (heap e1 fb) of
            None \<Rightarrow> Some (Inl TypeError)
          | Some cs \<Rightarrow> reconcile_children fb cs e1))"

text \<open>\<open>callable(fiber.type)\<close>\<close>

definition is_function_component :: "fiber \<Rightarrow> bool" where
  "is_function_component f = (case type f of Some (Component c) \<Rightarrow> True | _ \<Rightarrow> False)"

text \<open>
  The \<open>while next_fiber\<close> loop at the end of \<open>perform_unit_of_work\<close>: the first sibling
  on the way up through the parents; falling out of the loop returns \<open>None\<close>.
\<close>

partial_function (option) next_sibling_up :: "(ref \<Rightarrow> fiber) \<Rightarrow> ref option \<Rightarrow> ref option option" where
  "next_sibling_up h next_fiber =
    (case next_fiber of
       None \<Rightarrow> Some None
     | Some r \<Rightarrow>
         (case sibling (h r) of
            Some s \<Rightarrow> Some (Some s)
          | None \<Rightarrow> next_sibling_up h (parent (h r))))"

definition perform_unit_of_work ::
  "env \<Rightarrow> ref \<Rightarrow> engine \<Rightarrow> (error + (ref option \<times> engine)) option" where
  "perform_unit_of_work ev fb e =
    (case (if is_function_component (heap e fb)
           then update_function_component ev fb e
           else update_host_component fb e) of
       None \<Rightarrow> None
     | Some (Inl err) \<Rightarrow> Some (Inl err)
     | Some (Inr e1) \<Rightarrow>
         (case child (heap e1 fb) of
            Some c \<Rightarrow> Some (Inr (Some c, e1))
          | None \<Rightarrow>
              (case next_sibling_up (heap e1) (Some fb) of
                 None \<Rightarrow> None
               | Some nxt \<Rightarrow> Some (Inr (nxt, e1)))))"

section \<open>Commit\<close>

text \<open>
  \<open>commit_deletion\<close> recurses into \<open>fiber.child\<close> until a fiber holds a node; a
  missing child fails at \<open>fiber.dom\<close>.
\<close>

partial_function (option) commit_deletion ::
  "ref option \<Rightarrow> dom \<Rightarrow> engine \<Rightarrow> (error + engine) option" where
  "commit_deletion fb dom_parent e =
    (case fb of
       None \<Rightarrow> Some (Inl AttributeError)
     | Some r \<Rightarrow>
         (case dom (heap e r) of
            Some d \<Rightarrow>
              Some (Inr (upd r (\<lambda>f. f\<lparr>child := None\<rparr>)
                          (upd r (\<lambda>f. f\<lparr>dom := None\<rparr>) (emit [Remove d dom_parent] e))))
          | None \<Rightarrow>
              Option.bind (commit_deletion (child (heap e r)) dom_parent e)
                (\<lambda>res. case res of
                          Inl err \<Rightarrow> Some (Inl err)
                        | Inr e' \<Rightarrow> Some (Inr (upd r (\<lambda>f. f\<lparr>child := None\<rparr>) e')))))"

text \<open>
  The \<open>while not dom_parent_fiber.dom\<close> loop of \<open>commit_work\<close>: the node of the nearest
  ancestor that has one; running off the top fails at \<open>None.dom\<close>.
\<close>

partial_function (option) dom_parent_of :: "(ref \<Rightarrow> fiber) \<Rightarrow> ref option \<Rightarrow> (error + dom) option" where
  "dom_parent_of h dom_parent_fiber =
    (case dom_parent_fiber of
       None \<Rightarrow> Some (Inl AttributeError)
     | Some r \<Rightarrow>
         (case dom (h r) of
            Some d \<Rightarrow> Some (Inr d)
          | None \<Rightarrow> dom_parent_of h (parent (h r))))"

text \<open>
  \<open>update_dom\<close> as \<open>commit_work\<close> calls it, on snapshots that may be \<open>None\<close>:
  \<open>prev_props.items()\<close> fails first; a \<open>None\<close> for \<open>next_props\<close> fails at the first
  \<open>in next_props\<close> (a TypeError) if the previous map has a key, at
  \<open>next_props.items()\<close> otherwise.
\<close>

definition update_dom_snapshots :: "dom \<Rightarrow> props option \<Rightarrow> props option \<Rightarrow> error + call list" where
  "update_dom_snapshots d prev_props next_props =
    (case prev_props of
       None \<Rightarrow> Inl AttributeError
     | Some p \<Rightarrow>
         (case next_props of
            None \<Rightarrow> Inl (if p = [] then AttributeError else TypeError)
          | Some n \<Rightarrow> Inr (update_dom d p n)))"

text \<open>The \<open>if\<close>/\<open>elif\<close> chain of \<open>commit_work\<close>: the effect of one fiber on the backend.\<close>

definition apply_effect :: "ref \<Rightarrow> dom \<Rightarrow> engine \<Rightarrow> (error + engine) option" where
  "apply_effect r dom_parent e =
    (if effect_tag (heap e r) = Some PLACEMENT \<and> dom (heap e r) \<noteq> None
     then Some (Inr (emit [Insert (the (dom (heap e r))) dom_parent] e))
     else if effect_tag (heap e r) = Some UPDATE \<and> dom (heap e r) \<noteq> None
     then (case alternate (heap e r) of
             None \<Rightarrow> Some (Inl AttributeError)
           | Some a \<Rightarrow>
               (case update_dom_snapshots (the (dom (heap e r)))
                       (props_snapshot (heap e a)) (props_snapshot (heap e r)) of
                  Inl err \<Rightarrow> Some (Inl err)
                | Inr cs \<Rightarrow> Some (Inr (emit cs e))))
     else if effect_tag (heap e r) = Some DELETION
     then commit_deletion (Some r) dom_parent e
     else Some (Inr e))"

definition commit_work :: "ref option \<Rightarrow> engine \<Rightarrow> (error + engine) option" where
  "commit_work fb e =
    (case fb of
       None \<Rightarrow> Some (Inr e)
     | Some r \<Rightarrow>
         (case dom_parent_of (heap e) (parent (heap e r)) of
            None \<Rightarrow> None
          | Some (Inl err) \<Rightarrow> Some (Inl err)
          | Some (Inr dom_parent) \<Rightarrow>
              (case apply_effect r dom_parent e of
                 None \<Rightarrow> None
               | Some (Inl err) \<Rightarrow> Some (Inl err)
               | Some (Inr e1) \<Rightarrow>
                   Some (Inr (e1\<lparr>work := work e1 @ [child (heap e1 r), sibling (heap e1 r)]\<rparr>)))))"

text \<open>The \<open>while not self._work.empty()\<close> loop of \<open>commit_root\<close>.\<close>

partial_function (option) commit_loop :: "engine \<Rightarrow> (error + engine) option" where
  "commit_loop e =
    (case work e of
       [] \<Rightarrow> Some (Inr e)
     | w # ws \<Rightarrow>
         (case commit_work w (e\<lparr>work := ws\<rparr>) of
            None \<Rightarrow> None
          | Some (Inl err) \<Rightarrow> Some (Inl err)
          | Some (Inr e') \<Rightarrow> commit_loop e'))"

definition commit_root :: "engine \<Rightarrow> (error + engine) option" where
  "commit_root e =
    (case wip_root e of
       None \<Rightarrow> Some (Inl AttributeError)
     | Some w \<Rightarrow>
         (case commit_loop (e\<lparr>work := work e @ map Some (deletions e) @ [child (heap e w)],
                               deletions := []\<rparr>) of
            None \<Rightarrow> None
          | Some (Inl err) \<Rightarrow> Some (Inl err)
          | Some (Inr e1) \<Rightarrow> Some (Inr (e1\<lparr>current_root := wip_root e1, wip_root := None\<rparr>))))"

section \<open>The work loop\<close>

text \<open>
  The \<open>while self._next_unit_of_work and not should_yield\<close> loop. The deadline is
  only read where \<open>not self.event_loop_type\<close> holds; \<open>None - now\<close> is a TypeError.
\<close>

partial_function (option) perform_units ::
  "env \<Rightarrow> int option \<Rightarrow> bool \<Rightarrow> engine \<Rightarrow> (error + engine) option" where
  "perform_units ev deadline should_yield e =
    (case next_unit_of_work e of
       None \<Rightarrow> Some (Inr e)
     | Some u \<Rightarrow>
         if should_yield then Some (Inr e)
         else
           (case perform_unit_of_work ev u e of
              None \<Rightarrow> None
            | Some (Inl err) \<Rightarrow> Some (Inl err)
            | Some (Inr (nxt, e1)) \<Rightarrow>
                (let e2 = e1\<lparr>next_unit_of_work := nxt, ticks := Suc (ticks e1)\<rparr>;
                     now = perf_counter_ns ev (ticks e1)
                 in if truthy ev (event_loop_type e2)
                    then perform_units ev deadline False e2
                    else (case deadline of
                            None \<Rightarrow> Some (Inl TypeError)
                          | Some dl \<Rightarrow> perform_units ev deadline (dl - now < 1 * 1000000) e2))))"

text \<open>
  \<open>self._request(deadline)\<close> in the two modes that have a host loop: the
  \<open>work_loop\<close> call is handed to it with its deadline.
\<close>

definition schedule :: "int \<Rightarrow> engine \<Rightarrow> engine" where
  "schedule deadline e = e\<lparr>request := True, scheduled := scheduled e @ [deadline]\<rparr>"

text \<open>
  \<open>work_loop\<close>. Its last step calls \<open>request_idle_work()\<close>, which in SYNC mode calls
  \<open>work_loop(deadline=None)\<close> again: in this definition the body of
  \<open>request_idle_work\<close> (no deadline given, so one is read off the clock) stands
  where the call is.
\<close>

partial_function (option) work_loop :: "env \<Rightarrow> int option \<Rightarrow> engine \<Rightarrow> (error + engine) option" where
  "work_loop ev deadline e =
    (case perform_units ev deadline False e of
       None \<Rightarrow> None
     | Some (Inl err) \<Rightarrow> Some (Inl err)
     | Some (Inr e1) \<Rightarrow>
         (case (if next_unit_of_work e1 = None \<and> wip_root e1 \<noteq> None
                then commit_root e1 else Some (Inr e1)) of
            None \<Rightarrow> None
          | Some (Inl err) \<Rightarrow> Some (Inl err)
          | Some (Inr e2) \<Rightarrow>
              if next_unit_of_work e2 \<noteq> None then
                (let deadline' = perf_counter_ns ev (ticks e2) + 16 * 1000000;
                     e3 = e2\<lparr>ticks := Suc (ticks e2)\<rparr>
                 in if event_loop_type e3 = SYNC then work_loop ev None e3
                    else Some (Inr (schedule deadline' e3)))
              else
                (case render_callback e2 of
                   Some cb \<Rightarrow> Some (Inr (emit [RenderCallback cb] e2))
                 | None \<Rightarrow> Some (Inr e2))))"

text \<open>\<open>if not deadline\<close>: \<open>None\<close> and \<open>0\<close> are both replaced by 16 ms from now.\<close>

definition request_idle_work :: "env \<Rightarrow> int option \<Rightarrow> engine \<Rightarrow> (error + engine) option" where
  "request_idle_work ev deadline e =
    (let (deadline', e1) =
           (if deadline = None \<or> deadline = Some 0
            then (perf_counter_ns ev (ticks e) + 16 * 1000000, e\<lparr>ticks := Suc (ticks e)\<rparr>)
            else (the deadline, e))
     in if event_loop_type e1 = SYNC then work_loop ev None e1
        else Some (Inr (schedule deadline' e1)))"

text \<open>
  \<open>render\<close>, up to its last statement: everything before
  \<open>self.request_idle_work()\<close>.
\<close>

definition render_prepare :: "vnode \<Rightarrow> dom \<Rightarrow> nat option \<Rightarrow> engine \<Rightarrow> engine" where
  "render_prepare element container callback e =
    (let (w, e1) = alloc e;
         e2 = upd w (\<lambda>f. f\<lparr>dom := Some container, props := Some [], children := Some [element],
                           alternate := current_root e1\<rparr>) e1
     in e2\<lparr>wip_root := Some w, deletions := [], next_unit_of_work := Some w,
            render_callback := callback\<rparr>)"

definition render ::
  "env \<Rightarrow> vnode \<Rightarrow> dom \<Rightarrow> nat option \<Rightarrow> engine \<Rightarrow> (error + engine) option" where
  "render ev element container callback e =
     request_idle_work ev None (render_prepare element container callback e)"

text \<open>
  \<open>state_updated\<close>, up to its last statement: everything before
  \<open>self.request_idle_work()\<close>. With no current root,
  \<open>self._current_root.dom\<close> fails.
\<close>

definition state_updated_prepare :: "ref \<Rightarrow> engine \<Rightarrow> error + engine" where
  "state_updated_prepare fb e =
    (let e1 = upd fb (\<lambda>f. f\<lparr>watcher := None\<rparr>) e;
         (w, e2) = or_Fiber (case current_root e1 of None \<Rightarrow> None
                             | Some c \<Rightarrow> alternate (heap e1 c)) e1
     in case current_root e2 of
          None \<Rightarrow> Inl AttributeError
        | Some c \<Rightarrow>
            (let e3 = upd w (\<lambda>f. f\<lparr>dom := dom (heap e2 c)\<rparr>) e2;
                 e4 = upd w (\<lambda>f. f\<lparr>props := props (heap e3 c)\<rparr>) e3;
                 e5 = upd w (\<lambda>f. f\<lparr>children := children (heap e4 c)\<rparr>) e4;
                 e6 = upd w (\<lambda>f. f\<lparr>alternate := Some c\<rparr>) e5
             in Inr (e6\<lparr>wip_root := Some w, next_unit_of_work := Some w, deletions := []\<rparr>)))"

definition state_updated :: "env \<Rightarrow> ref \<Rightarrow> engine \<Rightarrow> (error + engine) option" where
  "state_updated ev fb e =
    (case state_updated_prepare fb e of
       Inl err \<Rightarrow> Some (Inl err)
     | Inr e1 \<Rightarrow> request_idle_work ev None e1)"

text \<open>
  A new engine: \<open>PyGui(renderer, event_loop_type=...)\<close>. The constructor leaves
  \<open>_deletions\<close> at \<open>None\<close>; \<open>render\<close> and \<open>state_updated\<close> assign it the empty
  list before any work is done, and the model starts from that list, so it stands
  for the engine as these two calls drive it.
\<close>

definition PyGui :: "EventLoopType \<Rightarrow> engine" where
  "PyGui t = \<lparr> heap = (\<lambda>r. Fiber), next_ref = 0, next_dom = 1, trace = [],
               event_loop_type = t, current_root = None, wip_root = None,
               next_unit_of_work = None, deletions = [], render_callback = None,
               request = False, scheduled = [], work = [], ticks = 0 \<rparr>"

section \<open>Reading a run\<close>

text \<open>
  Two calls on the engine one after the other (an exception or a run that does not
  return ends the sequence), and a look at the engine a call leaves.
\<close>

definition then_do ::
  "(error + engine) option \<Rightarrow> (engine \<Rightarrow> (error + engine) option) \<Rightarrow> (error + engine) option" where
  "then_do r f = (case r of None \<Rightarrow> None | Some (Inl err) \<Rightarrow> Some (Inl err) | Some (Inr e) \<Rightarrow> f e)"

definition observe :: "(engine \<Rightarrow> 'a) \<Rightarrow> (error + engine) option \<Rightarrow> (error + 'a) option" where
  "observe f r = map_option (map_sum id f) r"

text \<open>The root description of the scenario: a box with the children a and b.\<close>

definition box :: vnode where
  "box = VNode (Host ''box'') [] [VNode (Host ''a'') [] [] None, VNode (Host ''b'') [] [] None] None"

text \<open>
  What the spec says \<open>state_updated\<close> leaves: a work-in-progress root with the node,
  props and children of the current root \<open>c\<close> of the engine \<open>e\<close> it was called on, paired
  with \<open>c\<close> as its alternate; the watch of the notified fiber cleared; no deletions;
  the new root as the next unit of work.
\<close>

definition wip_mirrors :: "engine \<Rightarrow> ref \<Rightarrow> ref \<Rightarrow> engine \<Rightarrow> bool" where
  "wip_mirrors e c fb e' =
    (case wip_root e' of
       None \<Rightarrow> False
     | Some w \<Rightarrow>
         dom (heap e' w) = dom (heap e c) \<and> props (heap e' w) = props (heap e c)
         \<and> children (heap e' w) = children (heap e c) \<and> alternate (heap e' w) = Some c
         \<and> watcher (heap e' fb) = None \<and> deletions e' = []
         \<and> next_unit_of_work e' = Some w)"

text \<open>
  An environment for the scenarios. \<open>EventLoopType\<close> is taken to be a plain Python
  \<open>Enum\<close>, whose members are all true; the clock advances one second per reading.
\<close>

definition plain_enum :: env where
  "plain_enum = \<lparr>truthy = (\<lambda>_. True), components = (\<lambda>_ _. box),
                  perf_counter_ns = (\<lambda>n. 1000000000 * int n)\<rparr>"

text \<open>The engine a call returned with (a new engine if it did not).\<close>

definition engine_of :: "(error + engine) option \<Rightarrow> engine" where
  "engine_of r = (case r of Some (Inr e) \<Rightarrow> e | _ \<Rightarrow> PyGui SYNC)"

text \<open>
  The contract of \<open>perform_unit_of_work\<close> in the spec's words. The next unit in
  pre-order: the child if there is one, otherwise the first sibling found on the way
  up through the parents, otherwise none.
\<close>

inductive first_sibling_up :: "(ref \<Rightarrow> fiber) \<Rightarrow> ref \<Rightarrow> ref option \<Rightarrow> bool" for h where
  here: "sibling (h r) = Some s \<Longrightarrow> first_sibling_up h r (Some s)"
| top: "sibling (h r) = None \<Longrightarrow> parent (h r) = None \<Longrightarrow> first_sibling_up h r None"
| up: "sibling (h r) = None \<Longrightarrow> parent (h r) = Some p \<Longrightarrow> first_sibling_up h p res
        \<Longrightarrow> first_sibling_up h r res"

code_pred first_sibling_up .


text \<open>
  One unit, as the spec has it: a callable type is invoked on the props and the one
  description it gives is reconciled; otherwise the backend node is realized if absent
  and the stored child descriptions are reconciled.
\<close>

definition unit_of_work_spec :: "env \<Rightarrow> ref \<Rightarrow> engine \<Rightarrow> (error + engine) option" where
  "unit_of_work_spec ev fb e =
     (case type (heap e fb) of
        Some (Component c) \<Rightarrow> reconcile_children fb [components ev c (props (heap e fb))] e
      | _ \<Rightarrow>
         (if dom (heap e fb) = None
          then (case create_dom fb e of
                  Inl err \<Rightarrow> Some (Inl err)
                | Inr (d, e1) \<Rightarrow>
                    (case children (heap e1 fb) of
                       None \<Rightarrow> Some (Inl TypeError)
                     | Some cs \<Rightarrow> reconcile_children fb cs (upd fb (\<lambda>f. f\<lparr>dom := Some d\<rparr>) e1)))
          else (case children (heap e fb) of
                  None \<Rightarrow> Some (Inl TypeError)
                | Some cs \<Rightarrow> reconcile_children fb cs e)))"

text \<open>
  Reading the store: the fibers reached from a link by following \<open>sibling\<close> until
  \<open>None\<close>, those of a list that carry a given effect tag, and the alternates of a
  list of fibers.
\<close>

fun sib_chain :: "(ref \<Rightarrow> fiber) \<Rightarrow> ref option \<Rightarrow> ref list \<Rightarrow> bool" where
  "sib_chain h p [] = (p = None)"
| "sib_chain h p (r # rs) = (p = Some r \<and> sib_chain h (sibling (h r)) rs)"

definition tagged :: "(ref \<Rightarrow> fiber) \<Rightarrow> EffectTag \<Rightarrow> ref list \<Rightarrow> ref list" where
  "tagged h t rs = filter (\<lambda>r. effect_tag (h r) = Some t) rs"

definition alternates :: "(ref \<Rightarrow> fiber) \<Rightarrow> ref list \<Rightarrow> ref list" where
  "alternates h rs = List.map_filter (\<lambda>r. alternate (h r)) rs"

text \<open>
  The old fibers and the new descriptions have the same type, position by position,
  as far as both lists go.
\<close>

definition same_types :: "(ref \<Rightarrow> fiber) \<Rightarrow> ref list \<Rightarrow> vnode list \<Rightarrow> bool" where
  "same_types h os els = list_all (\<lambda>(ol, el). type (h ol) = Some (vtype el)) (zip os els)"

text \<open>
  The alternates the loop will reuse are fibers of their own: allocated, pairwise
  different, none of them the parent being reconciled or one of the old fibers.
\<close>

definition reusable :: "engine \<Rightarrow> ref \<Rightarrow> ref list \<Rightarrow> ref list \<Rightarrow> bool" where
  "reusable e w os rs =
     (distinct (alternates (heap e) rs)
      \<and> list_all (\<lambda>a. a < next_ref e \<and> a \<noteq> w \<and> a \<notin> set os) (alternates (heap e) rs))"

text \<open>
  The fiber the loop body writes (it assigns every field), a store with one fiber
  replaced, and the link step on the engine.
\<close>

definition configured :: "vnode \<Rightarrow> ref \<Rightarrow> dom option \<Rightarrow> ref option \<Rightarrow> EffectTag \<Rightarrow> fiber" where
  "configured el w d alt t =
     \<lparr>type = Some (vtype el), props = Some (vprops el), props_snapshot = Some (vprops el),
      children = Some (vchildren el), dom = d, parent = Some w, child = None, sibling = None,
      alternate = alt, effect_tag = Some t, watcher = None\<rparr>"

definition put :: "ref \<Rightarrow> fiber \<Rightarrow> engine \<Rightarrow> engine" where
  "put r f e = e\<lparr>heap := (heap e)(r := f)\<rparr>"

definition linked :: "ref \<Rightarrow> nat \<Rightarrow> ref option \<Rightarrow> ref option \<Rightarrow> engine \<Rightarrow> engine" where
  "linked w i ps nf e =
     (if i = 0 then upd w (\<lambda>f. f\<lparr>child := nf\<rparr>) e
      else case ps of Some p \<Rightarrow> upd p (\<lambda>f. f\<lparr>sibling := nf\<rparr>) e | None \<Rightarrow> e)"

text \<open>
  A second pass over the committed box: the box is rendered again with the children
  \<open>cs\<close>, and the unit of the new root has been performed, so that the new fiber of
  the box (fiber 5, with the old box as its alternate) is about to be reconciled
  against the old children a and b (fibers 2 and 3).
\<close>

definition box_with :: "vnode list \<Rightarrow> vnode" where
  "box_with cs = VNode (Host ''box'') [] cs None"

definition second_pass :: "vnode list \<Rightarrow> engine" where
  "second_pass cs =
     engine_of (unit_of_work_spec plain_enum 4
       (render_prepare (box_with cs) 0 None (engine_of (render plain_enum box 0 None (PyGui SYNC)))))"

text \<open>
  What no unit of work and no commit touches: the mode, the requests made of the host
  loop, the callback, the next unit and the clock.
\<close>

definition frame :: "engine \<Rightarrow> engine \<Rightarrow> bool" where
  "frame e e' = (event_loop_type e' = event_loop_type e \<and> scheduled e' = scheduled e
     \<and> request e' = request e \<and> render_callback e' = render_callback e
     \<and> next_unit_of_work e' = next_unit_of_work e \<and> ticks e' = ticks e)"

definition roots_kept :: "engine \<Rightarrow> engine \<Rightarrow> bool" where
  "roots_kept e e' = (wip_root e' = wip_root e \<and> current_root e' = current_root e)"

text \<open>
  Running to exhaustion, as the spec has it for the synchronous mode: the units of
  work one after the other until none remains, with no deadline anywhere. The number
  bounds the units performed; \<open>None\<close> when that many do not exhaust the work.
\<close>

fun run_units :: "env \<Rightarrow> nat \<Rightarrow> engine \<Rightarrow> (error + engine) option" where
  "run_units ev 0 e = (case next_unit_of_work e of None \<Rightarrow> Some (Inr e) | Some u \<Rightarrow> None)"
| "run_units ev (Suc n) e =
    (case next_unit_of_work e of
       None \<Rightarrow> Some (Inr e)
     | Some u \<Rightarrow>
         (case perform_unit_of_work ev u e of
            None \<Rightarrow> None
          | Some (Inl err) \<Rightarrow> Some (Inl err)
          | Some (Inr (nxt, e1)) \<Rightarrow>
              run_units ev n (e1\<lparr>next_unit_of_work := nxt, ticks := Suc (ticks e1)\<rparr>)))"

text \<open>One reading of the clock.\<close>

definition tick :: "engine \<Rightarrow> engine" where
  "tick e = e\<lparr>ticks := Suc (ticks e)\<rparr>"

text \<open>The whole pass in one step: all units, then the commit, then the callback.\<close>

definition sync_pass :: "env \<Rightarrow> nat \<Rightarrow> engine \<Rightarrow> (error + engine) option" where
  "sync_pass ev n e =
     then_do (run_units ev n e) (\<lambda>e1.
       then_do (if wip_root e1 \<noteq> None then commit_root e1 else Some (Inr e1)) (\<lambda>e2.
         Some (Inr (case render_callback e2 of
                      Some cb \<Rightarrow> emit [RenderCallback cb] e2
                    | None \<Rightarrow> e2))))"

section \<open>Properties of update_dom\<close>

lemma filter_concat_single:
  assumes "distinct (map fst xs)" "(k, v) \<in> set xs"
    and "\<And>k' v'. (k', v') \<in> set xs \<Longrightarrow> k' \<noteq> k \<Longrightarrow> filter P (g (k', v')) = []"
  shows "filter P (concat (map g xs)) = filter P (g (k, v))"
  using assms
proof (induction xs)
  case Nil then show ?case by simp
next
  case (Cons x xs)
  show ?case
  proof (cases "x = (k, v)")
    case True
    have "filter P (concat (map g xs)) = []"
    proof -
      have "\<forall>y \<in> set xs. filter P (g y) = []"
      proof
        fix y assume y: "y \<in> set xs"
        obtain k' v' where yy: "y = (k', v')" by (cases y)
        have "k' \<noteq> k" using Cons.prems(1) y True yy by (auto simp: image_iff)
        then show "filter P (g y) = []" using Cons.prems(3)[of k' v'] y yy by simp
      qed
      then show ?thesis by (induction xs) auto
    qed
    then show ?thesis using True by simp
  next
    case False
    then have mem: "(k, v) \<in> set xs" using Cons.prems(2) by auto
    obtain k' v' where x: "x = (k', v')" by (cases x)
    have "k' \<noteq> k" using Cons.prems(1) mem x by (auto simp: image_iff)
    then have "filter P (g x) = []" using Cons.prems(3)[of k' v'] x by simp
    moreover have "filter P (concat (map g xs)) = filter P (g (k, v))"
      using Cons.IH Cons.prems mem by auto
    ultimately show ?thesis by simp
  qed
qed

lemma filter_concat_none:
  assumes "\<And>k' v'. (k', v') \<in> set xs \<Longrightarrow> filter P (g (k', v')) = []"
  shows "filter P (concat (map g xs)) = []"
  using assms by (induction xs) auto

lemma get_mem: "distinct (map fst d) \<Longrightarrow> (k, v) \<in> set d \<Longrightarrow> get d k = v"
  by (simp add: get_def)

lemma get_absent: "\<not> has_key d k \<Longrightarrow> get d k = PNone"
  by (auto simp: get_def has_key_def split: option.splits dest: map_of_SomeD intro: rev_image_eqI)

lemma has_key_mem: "(k, v) \<in> set d \<Longrightarrow> has_key d k"
  by (force simp: has_key_def)

lemma get_del_key: "k' \<noteq> k \<Longrightarrow> get (del_key k d) k' = get d k'"
  by (induction d) (auto simp: get_def del_key_def)

lemma has_key_del_key: "k' \<noteq> k \<Longrightarrow> has_key (del_key k d) k' = has_key d k'"
  by (induction d) (auto simp: has_key_def del_key_def)

lemma concat_map_del_key:
  assumes "\<And>v. g (k, v) = []"
  shows "concat (map g (del_key k d)) = concat (map g d)"
  using assms by (induction d) (auto simp: del_key_def)

lemma concat_map_cong_keys:
  assumes "\<And>k v. (k, v) \<in> set d \<Longrightarrow> f (k, v) = g (k, v)"
  shows "concat (map f d) = concat (map g d)"
  using assms by (induction d) auto

lemmas update_dom_defs = update_dom_def remove_old_listeners_def remove_old_properties_def
  set_new_properties_def add_new_listeners_def is_event_def is_property_def is_new_def
  get_def has_key_def event_type_def lower_char_def

text \<open>
  What \<open>update_dom\<close> does for a non-listener key \<open>k\<close>, on any two snapshots. The
  attribute calls on \<open>k\<close> are: one \<open>set_attribute\<close> with the new value when the
  value changed; one \<open>clear_attribute\<close> with the old value, and no
  \<open>set_attribute\<close>, when the key is gone; nothing when the value is unchanged; and for
  a newly present key one \<open>set_attribute\<close>, except that a new key whose value is
  \<open>None\<close> gets nothing (\<open>is_new\<close> compares with \<open>prev_props.get(key)\<close>, which
  is \<open>None\<close> for a missing key as well).
\<close>

theorem attribute_delta:
  assumes dp: "distinct (map fst prev_props)" and dn: "distinct (map fst next_props)"
    and pr: "is_property k"
  shows "filter (on_attribute k) (update_dom d prev_props next_props) =
           (if has_key prev_props k then
              (if has_key next_props k then
                 (if get prev_props k \<noteq> get next_props k
                  then [SetAttribute d k (get next_props k)] else [])
               else [ClearAttribute d k (get prev_props k)])
            else
              (if has_key next_props k \<and> get next_props k \<noteq> PNone
               then [SetAttribute d k (get next_props k)] else []))"
proof -
  let ?P = "on_attribute k"
  have 1: "filter ?P (remove_old_listeners d prev_props next_props) = []"
    unfolding remove_old_listeners_def
    by (rule filter_concat_none) (simp add: on_attribute_def)
  have 4: "filter ?P (add_new_listeners d prev_props next_props) = []"
    unfolding add_new_listeners_def
    by (rule filter_concat_none) (simp add: on_attribute_def)
  have 2: "filter ?P (remove_old_properties d prev_props next_props) =
             (if has_key prev_props k \<and> \<not> has_key next_props k
              then [ClearAttribute d k (get prev_props k)] else [])"
  proof (cases "has_key prev_props k")
    case True
    then obtain v where m: "(k, v) \<in> set prev_props" by (auto simp: has_key_def)
    have g: "get prev_props k = v" using dp m by (rule get_mem)
    show ?thesis unfolding remove_old_properties_def
      by (subst filter_concat_single[OF dp m]) (auto simp: on_attribute_def pr g True)
  next
    case False
    have "\<And>k' v'. (k', v') \<in> set prev_props \<Longrightarrow> k' \<noteq> k"
      using False by (auto simp: has_key_def image_iff)
    then show ?thesis unfolding remove_old_properties_def using False
      by (subst filter_concat_none) (auto simp: on_attribute_def)
  qed
  have 3: "filter ?P (set_new_properties d prev_props next_props) =
             (if has_key next_props k \<and> get next_props k \<noteq> get prev_props k
              then [SetAttribute d k (get next_props k)] else [])"
  proof (cases "has_key next_props k")
    case True
    then obtain v where m: "(k, v) \<in> set next_props" by (auto simp: has_key_def)
    have g: "get next_props k = v" using dn m by (rule get_mem)
    show ?thesis unfolding set_new_properties_def
      by (subst filter_concat_single[OF dn m]) (auto simp: on_attribute_def pr g True is_new_def)
  next
    case False
    have "\<And>k' v'. (k', v') \<in> set next_props \<Longrightarrow> k' \<noteq> k"
      using False by (auto simp: has_key_def image_iff)
    then show ?thesis unfolding set_new_properties_def using False
      by (subst filter_concat_none) (auto simp: on_attribute_def)
  qed
  show ?thesis
    by (auto simp: update_dom_def 1 2 3 4 get_absent)
qed

theorem attribute_delta_witness:
  "distinct (map fst [(''a'', PInt 1), (''b'', PInt 2), (''c'', PInt 3)])
   \<and> distinct (map fst [(''a'', PInt 1), (''b'', PInt 5), (''d'', PInt 4), (''e'', PNone)])
   \<and> is_property ''a'' \<and> is_property ''b'' \<and> is_property ''c'' \<and> is_property ''d'' \<and> is_property ''e''
   \<and> filter (on_attribute ''a'') (update_dom 0 [(''a'', PInt 1), (''b'', PInt 2), (''c'', PInt 3)]
          [(''a'', PInt 1), (''b'', PInt 5), (''d'', PInt 4), (''e'', PNone)]) = []
   \<and> filter (on_attribute ''b'') (update_dom 0 [(''a'', PInt 1), (''b'', PInt 2), (''c'', PInt 3)]
          [(''a'', PInt 1), (''b'', PInt 5), (''d'', PInt 4), (''e'', PNone)]) = [SetAttribute 0 ''b'' (PInt 5)]
   \<and> filter (on_attribute ''c'') (update_dom 0 [(''a'', PInt 1), (''b'', PInt 2), (''c'', PInt 3)]
          [(''a'', PInt 1), (''b'', PInt 5), (''d'', PInt 4), (''e'', PNone)]) = [ClearAttribute 0 ''c'' (PInt 3)]
   \<and> filter (on_attribute ''d'') (update_dom 0 [(''a'', PInt 1), (''b'', PInt 2), (''c'', PInt 3)]
          [(''a'', PInt 1), (''b'', PInt 5), (''d'', PInt 4), (''e'', PNone)]) = [SetAttribute 0 ''d'' (PInt 4)]
   \<and> filter (on_attribute ''e'') (update_dom 0 [(''a'', PInt 1), (''b'', PInt 2), (''c'', PInt 3)]
          [(''a'', PInt 1), (''b'', PInt 5), (''d'', PInt 4), (''e'', PNone)]) = []"
proof -
  let ?p = "[(''a'', PInt 1), (''b'', PInt 2), (''c'', PInt 3)]"
  let ?n = "[(''a'', PInt 1), (''b'', PInt 5), (''d'', PInt 4), (''e'', PNone)]"
  have dp: "distinct (map fst ?p)" and dn: "distinct (map fst ?n)" by simp_all
  have pr: "is_property ''a''" "is_property ''b''" "is_property ''c''" "is_property ''d''" "is_property ''e''"
    by (simp_all add: is_property_def is_event_def)
  note t = attribute_delta[OF dp dn, of _ 0]
  show ?thesis
    using dp dn pr t[OF pr(1)] t[OF pr(2)] t[OF pr(3)] t[OF pr(4)] t[OF pr(5)]
    by (simp add: has_key_def get_def)
qed

text \<open>
  C4 on the code. The key \<open>text\<close> is newly present, with the value \<open>None\<close>: the loop
  headed "Set new or changed properties" asks "Is key new or changed?" through
  \<open>val != prev_props.get(key)\<close>, which cannot tell a missing key from one that holds
  \<open>None\<close>, and \<open>update_dom\<close> makes no call at all. \<open>None\<close> is a value like any other
  on the two other paths: the same key gone is cleared with it, and a change to it is
  set.
\<close>

theorem new_key_with_None_gets_no_call:
  "is_property ''text'' \<and> \<not> has_key [] ''text'' \<and> has_key [(''text'', PNone)] ''text''
   \<and> update_dom 0 [] [(''text'', PNone)] = []
   \<and> update_dom 0 [(''text'', PNone)] [] = [ClearAttribute 0 ''text'' PNone]
   \<and> update_dom 0 [(''text'', PInt 1)] [(''text'', PNone)] = [SetAttribute 0 ''text'' PNone]"
  by (simp add: update_dom_defs)

text \<open>
  C5. A listener property (name starting with \<open>on\<close>) present in both snapshots, no other
  listener property of either snapshot naming the same event: if its value differs,
  the listener calls for its event are one \<open>remove_event_listener\<close> with the old
  value followed by one \<open>add_event_listener\<close> with the new value; if the value is
  unchanged there is none.
\<close>

theorem replaced_listener:
  assumes dp: "distinct (map fst prev_props)" and dn: "distinct (map fst next_props)"
    and ev: "is_event name"
    and mp: "(name, old) \<in> set prev_props" and mn: "(name, new) \<in> set next_props"
    and uniq: "\<forall>n \<in> fst ` set prev_props \<union> fst ` set next_props.
                 is_event n \<and> n \<noteq> name \<longrightarrow> event_type n \<noteq> event_type name"
  shows "filter (on_event (event_type name)) (update_dom d prev_props next_props) =
           (if old \<noteq> new
            then [RemoveEventListener d (event_type name) old, AddEventListener d (event_type name) new]
            else [])"
proof -
  let ?P = "on_event (event_type name)"
  have gp: "get prev_props name = old" using dp mp by (rule get_mem)
  have gn: "get next_props name = new" using dn mn by (rule get_mem)
  have hn: "has_key next_props name" using mn by (rule has_key_mem)
  have other_p: "\<And>k v. (k, v) \<in> set prev_props \<Longrightarrow> k \<noteq> name \<Longrightarrow> is_event k
                  \<Longrightarrow> event_type k \<noteq> event_type name"
    using uniq by (force simp: image_iff)
  have other_n: "\<And>k v. (k, v) \<in> set next_props \<Longrightarrow> k \<noteq> name \<Longrightarrow> is_event k
                  \<Longrightarrow> event_type k \<noteq> event_type name"
    using uniq by (force simp: image_iff)
  have 1: "filter ?P (remove_old_listeners d prev_props next_props) =
             (if old \<noteq> new then [RemoveEventListener d (event_type name) old] else [])"
    unfolding remove_old_listeners_def
    by (subst filter_concat_single[OF dp mp]) (auto simp: on_event_def ev hn gn is_new_def dest: other_p)
  have 2: "filter ?P (remove_old_properties d prev_props next_props) = []"
    unfolding remove_old_properties_def
    by (rule filter_concat_none) (simp add: on_event_def)
  have 3: "filter ?P (set_new_properties d prev_props next_props) = []"
    unfolding set_new_properties_def
    by (rule filter_concat_none) (simp add: on_event_def)
  have 4: "filter ?P (add_new_listeners d prev_props next_props) =
             (if old \<noteq> new then [AddEventListener d (event_type name) new] else [])"
    unfolding add_new_listeners_def
    by (subst filter_concat_single[OF dn mn]) (auto simp: on_event_def ev gp gn is_new_def dest: other_n)
  show ?thesis by (simp add: update_dom_def 1 2 3 4)
qed

theorem replaced_listener_witness:
  "distinct (map fst [(''onClick'', PHandler 1), (''onKey'', PHandler 3), (''text'', PStr ''a'')])
   \<and> distinct (map fst [(''text'', PStr ''a''), (''onClick'', PHandler 2), (''onKey'', PHandler 3)])
   \<and> is_event ''onClick'' \<and> is_event ''onKey''
   \<and> filter (on_event (event_type ''onClick''))
        (update_dom 0 [(''onClick'', PHandler 1), (''onKey'', PHandler 3), (''text'', PStr ''a'')]
                      [(''text'', PStr ''a''), (''onClick'', PHandler 2), (''onKey'', PHandler 3)])
      = [RemoveEventListener 0 ''click'' (PHandler 1), AddEventListener 0 ''click'' (PHandler 2)]
   \<and> filter (on_event (event_type ''onKey''))
        (update_dom 0 [(''onClick'', PHandler 1), (''onKey'', PHandler 3), (''text'', PStr ''a'')]
                      [(''text'', PStr ''a''), (''onClick'', PHandler 2), (''onKey'', PHandler 3)])
      = []"
proof -
  let ?p = "[(''onClick'', PHandler 1), (''onKey'', PHandler 3), (''text'', PStr ''a'')]"
  let ?n = "[(''text'', PStr ''a''), (''onClick'', PHandler 2), (''onKey'', PHandler 3)]"
  have dp: "distinct (map fst ?p)" and dn: "distinct (map fst ?n)" by simp_all
  have ev: "is_event ''onClick''" "is_event ''onKey''" by (simp_all add: is_event_def)
  have et: "event_type ''onClick'' = ''click''" "event_type ''onKey'' = ''key''"
    by (simp_all add: event_type_def lower_char_def)
  have u1: "\<forall>n \<in> fst ` set ?p \<union> fst ` set ?n.
              is_event n \<and> n \<noteq> ''onClick'' \<longrightarrow> event_type n \<noteq> event_type ''onClick''"
    by (simp add: event_type_def lower_char_def)
  have u2: "\<forall>n \<in> fst ` set ?p \<union> fst ` set ?n.
              is_event n \<and> n \<noteq> ''onKey'' \<longrightarrow> event_type n \<noteq> event_type ''onKey''"
    by (simp add: event_type_def lower_char_def)
  have m1: "(''onClick'', PHandler 1) \<in> set ?p" "(''onClick'', PHandler 2) \<in> set ?n" by simp_all
  have m2: "(''onKey'', PHandler 3) \<in> set ?p" "(''onKey'', PHandler 3) \<in> set ?n" by simp_all
  show ?thesis
    using dp dn ev replaced_listener[OF dp dn ev(1) m1 u1, of 0] replaced_listener[OF dp dn ev(2) m2 u2, of 0]
    by (simp add: et)
qed

text \<open>
  C10. A listener property present in the previous snapshot and absent from the next
  one causes no call: \<open>update_dom\<close> makes exactly the calls it makes when the property
  is deleted from the previous snapshot. In particular no \<open>remove_event_listener\<close>
  is made for it, so the handler stays registered on the node.
\<close>

theorem listener_absent_from_next_not_removed:
  assumes ev: "is_event name" and absent: "\<not> has_key next_props name"
  shows "update_dom d prev_props next_props = update_dom d (del_key name prev_props) next_props"
proof -
  have g: "\<And>k. has_key next_props k \<Longrightarrow> get (del_key name prev_props) k = get prev_props k"
    using absent get_del_key by metis
  have 1: "remove_old_listeners d (del_key name prev_props) next_props = remove_old_listeners d prev_props next_props"
    unfolding remove_old_listeners_def
    by (rule concat_map_del_key) (simp add: absent)
  have 2: "remove_old_properties d (del_key name prev_props) next_props = remove_old_properties d prev_props next_props"
    unfolding remove_old_properties_def
    by (rule concat_map_del_key) (simp add: ev is_property_def)
  have 3: "set_new_properties d (del_key name prev_props) next_props = set_new_properties d prev_props next_props"
    unfolding set_new_properties_def
    by (rule concat_map_cong_keys) (simp add: is_new_def g has_key_mem)
  have 4: "add_new_listeners d (del_key name prev_props) next_props = add_new_listeners d prev_props next_props"
    unfolding add_new_listeners_def
    by (rule concat_map_cong_keys) (simp add: is_new_def g has_key_mem)
  show ?thesis by (simp add: update_dom_def 1 2 3 4)
qed

theorem listener_absent_witness:
  "is_event ''onClick'' \<and> \<not> has_key [(''text'', PStr ''b'')] ''onClick''
   \<and> update_dom 0 [(''onClick'', PHandler 1), (''text'', PStr ''a'')] [(''text'', PStr ''b'')]
      = update_dom 0 [(''text'', PStr ''a'')] [(''text'', PStr ''b'')]
   \<and> update_dom 0 [(''onClick'', PHandler 1), (''text'', PStr ''a'')] [(''text'', PStr ''b'')]
      = [SetAttribute 0 ''text'' (PStr ''b'')]"
proof -
  have ev: "is_event ''onClick''" by (simp add: is_event_def)
  have ab: "\<not> has_key [(''text'', PStr ''b'')] ''onClick''" by (simp add: has_key_def)
  have r: "update_dom 0 [(''text'', PStr ''a'')] [(''text'', PStr ''b'')] = [SetAttribute 0 ''text'' (PStr ''b'')]"
    by (simp add: update_dom_defs)
  show ?thesis
    using ev ab listener_absent_from_next_not_removed[OF ev ab, of 0 "[(''onClick'', PHandler 1), (''text'', PStr ''a'')]"]
    by (simp add: del_key_def r)
qed

section \<open>Evaluating the engine\<close>

lemmas engine_defs = render_def render_prepare_def request_idle_work_def work_loop.simps
  perform_units.simps perform_unit_of_work_def update_host_component_def
  update_function_component_def is_function_component_def create_dom_def
  reconcile_children_def reconcile_loop.simps reconcile_step_def same_type_def
  configure_update_def configure_placement_def mark_deletion_def link_fiber_def
  watch_props_def clear_old_watcher_def old_child_def next_sibling_up.simps commit_root_def
  commit_loop.simps commit_work_def apply_effect_def dom_parent_of.simps
  commit_deletion.simps update_dom_snapshots_def alloc_def or_Fiber_def upd_def emit_def
  schedule_def props_truthy_def PyGui_def Fiber_def state_updated_def
  state_updated_prepare_def then_do_def observe_def tick_def Let_def

section \<open>What a pass leaves alone\<close>

lemma frame_refl: "frame e e" by (simp add: frame_def)

lemma frame_trans: "frame a b \<Longrightarrow> frame b c \<Longrightarrow> frame a c" by (simp add: frame_def)

lemma roots_kept_refl: "roots_kept e e" by (simp add: roots_kept_def)

lemma roots_kept_trans: "roots_kept a b \<Longrightarrow> roots_kept b c \<Longrightarrow> roots_kept a c" by (simp add: roots_kept_def)

lemma frame_upd: "frame e (upd r f e)" "roots_kept e (upd r f e)"
  by (simp_all add: frame_def roots_kept_def upd_def)

lemma frame_emit: "frame e (emit cs e)" "roots_kept e (emit cs e)"
  by (simp_all add: frame_def roots_kept_def emit_def)

lemma frame_or_Fiber: "or_Fiber x e = (n, e') \<Longrightarrow> frame e e' \<and> roots_kept e e'"
  by (auto simp: or_Fiber_def alloc_def frame_def roots_kept_def split: option.splits)

lemma configure_update_frame:
  "configure_update w ol el sm e = (n, e') \<Longrightarrow> frame e e' \<and> roots_kept e e'"
  by (auto simp: configure_update_def Let_def frame_refl roots_kept_refl
      split: option.splits if_splits prod.splits
      dest!: frame_or_Fiber intro: frame_trans roots_kept_trans frame_upd)

lemma configure_placement_frame:
  "configure_placement w ol el sm nf e = (n, e') \<Longrightarrow> frame e e' \<and> roots_kept e e'"
  by (auto simp: configure_placement_def Let_def frame_refl roots_kept_refl
      split: option.splits if_splits prod.splits
      dest!: frame_or_Fiber intro: frame_trans roots_kept_trans frame_upd)

lemma mark_deletion_frame: "frame e (mark_deletion ol sm e) \<and> roots_kept e (mark_deletion ol sm e)"
  by (auto simp: mark_deletion_def frame_def roots_kept_def upd_def split: option.splits)

lemma link_fiber_frame: "link_fiber w i el ps nf e = Inr e' \<Longrightarrow> frame e e' \<and> roots_kept e e'"
  by (auto simp: link_fiber_def frame_upd frame_refl roots_kept_refl split: option.splits if_splits)

lemma reconcile_step_frame:
  assumes "reconcile_step w els i ol ps e = Inr (ol', ps', e')"
  shows "frame e e' \<and> roots_kept e e'"
proof -
  define el where "el = (if i < length els then Some (els ! i) else None)"
  define sm where "sm = same_type (heap e) ol el"
  obtain n1 e1 where a: "configure_update w ol el sm e = (n1, e1)" by (cases "configure_update w ol el sm e")
  obtain n2 e2 where b: "configure_placement w ol el sm n1 e1 = (n2, e2)" by (cases "configure_placement w ol el sm n1 e1")
  from assms a b have c: "link_fiber w i el ps n2 (mark_deletion ol sm e2) = Inr e'"
    unfolding reconcile_step_def Let_def el_def[symmetric] sm_def[symmetric]
    by (simp split: sum.splits)
  from configure_update_frame[OF a] configure_placement_frame[OF b]
       mark_deletion_frame[of e2 ol sm] link_fiber_frame[OF c]
  show ?thesis by (blast intro: frame_trans roots_kept_trans)
qed

lemma reconcile_loop_frame:
  "reconcile_loop w els i ol ps e = Some r \<Longrightarrow> (\<forall>e'. r = Inr e' \<longrightarrow> frame e e' \<and> roots_kept e e')"
proof (induction rule: reconcile_loop.raw_induct[rotated 1, consumes 1])
  case (1 rl w els i ol ps e r)
  show ?case
  proof (cases "i < length els \<or> ol \<noteq> None")
    case False
    with 1(2) show ?thesis by (auto simp: frame_refl roots_kept_refl)
  next
    case True
    show ?thesis
    proof (cases "reconcile_step w els i ol ps e")
      case (Inl err)
      with 1(2) True show ?thesis by auto
    next
      case (Inr t)
      obtain ol' ps' e1 where t: "t = (ol', ps', e1)" by (cases t)
      from 1(2) True Inr t have "rl w els (i + 1) ol' ps' e1 = Some r" by simp
      from 1(1)[OF this] reconcile_step_frame[OF Inr[unfolded t]]
      show ?thesis by (blast intro: frame_trans roots_kept_trans)
    qed
  qed
qed

lemma watch_props_frame: "frame e (watch_props w e) \<and> roots_kept e (watch_props w e)"
  by (simp add: watch_props_def frame_upd frame_refl roots_kept_refl)

lemma clear_old_watcher_frame: "frame e (clear_old_watcher ol e) \<and> roots_kept e (clear_old_watcher ol e)"
  by (simp add: clear_old_watcher_def frame_upd frame_refl roots_kept_refl split: option.splits)

lemma reconcile_children_frame:
  assumes "reconcile_children w els e = Some (Inr e')"
  shows "frame e e' \<and> roots_kept e e'"
  using reconcile_loop_frame[OF assms[unfolded reconcile_children_def]]
    watch_props_frame[of e w] clear_old_watcher_frame[of "watch_props w e" "old_child (heap e) w"]
  by (blast intro: frame_trans roots_kept_trans)

lemma create_dom_frame:
  "create_dom fb e = Inr (d, e') \<Longrightarrow> frame e e' \<and> roots_kept e e'"
  by (auto simp: create_dom_def Let_def emit_def frame_def roots_kept_def split: option.splits)

lemma update_host_component_frame:
  assumes "update_host_component fb e = Some (Inr e')"
  shows "frame e e' \<and> roots_kept e e'"
proof (cases "dom (heap e fb) = None")
  case True
  with assms obtain d e0 where c: "create_dom fb e = Inr (d, e0)"
    by (auto simp: update_host_component_def split: sum.splits)
  let ?e1 = "upd fb (\<lambda>f. f\<lparr>dom := Some d\<rparr>) e0"
  from assms True c obtain cs where "reconcile_children fb cs ?e1 = Some (Inr e')"
    by (auto simp: update_host_component_def split: option.splits)
  from reconcile_children_frame[OF this] create_dom_frame[OF c] frame_upd[of e0 fb]
  show ?thesis by (blast intro: frame_trans roots_kept_trans)
next
  case False
  with assms obtain cs where "reconcile_children fb cs e = Some (Inr e')"
    by (auto simp: update_host_component_def split: option.splits)
  from reconcile_children_frame[OF this] show ?thesis .
qed

lemma update_function_component_frame:
  assumes "update_function_component ev fb e = Some (Inr e')"
  shows "frame e e' \<and> roots_kept e e'"
  using assms
  by (auto simp: update_function_component_def split: option.splits node_type.splits
           dest: reconcile_children_frame)

lemma perform_unit_of_work_frame:
  assumes "perform_unit_of_work ev fb e = Some (Inr (nxt, e'))"
  shows "frame e e' \<and> roots_kept e e'"
  using assms
  by (auto simp: perform_unit_of_work_def split: option.splits sum.splits if_splits
           dest: update_function_component_frame update_host_component_frame)

lemma commit_deletion_frame:
  "commit_deletion fb dp e = Some r \<Longrightarrow> (\<forall>e'. r = Inr e' \<longrightarrow> frame e e' \<and> roots_kept e e')"
proof (induction rule: commit_deletion.raw_induct[rotated 1, consumes 1])
  case (1 cd fb dp e r)
  show ?case
  proof (cases fb)
    case None
    with 1(2) show ?thesis by auto
  next
    case (Some x)
    show ?thesis
    proof (cases "dom (heap e x)")
      case (Some d)
      with 1(2) \<open>fb = Some x\<close> show ?thesis
        by (auto simp: frame_def roots_kept_def upd_def emit_def)
    next
      case None
      with 1(2) \<open>fb = Some x\<close> obtain r0 where r0: "cd (child (heap e x)) dp e = Some r0"
        and r: "(case r0 of Inl err \<Rightarrow> Some (Inl err) | Inr e' \<Rightarrow> Some (Inr (upd x (\<lambda>f. f\<lparr>child := None\<rparr>) e'))) = Some r"
        by (auto simp: bind_eq_Some_conv)
      from 1(1)[OF r0] r show ?thesis
        by (cases r0) (auto intro: frame_trans roots_kept_trans frame_upd)
    qed
  qed
qed

lemma apply_effect_frame:
  assumes "apply_effect x dp e = Some (Inr e1)"
  shows "frame e e1 \<and> roots_kept e e1"
  using assms
  by (auto simp: apply_effect_def split: if_splits option.splits sum.splits
           intro: frame_emit frame_refl roots_kept_refl dest: commit_deletion_frame)

lemma commit_work_frame:
  assumes "commit_work fb e = Some (Inr e')"
  shows "frame e e' \<and> roots_kept e e'"
proof (cases fb)
  case None
  with assms show ?thesis by (simp add: commit_work_def frame_refl roots_kept_refl)
next
  case (Some x)
  from assms Some obtain dp e1 where mid: "apply_effect x dp e = Some (Inr e1)"
    and fin: "e' = e1\<lparr>work := work e1 @ [child (heap e1 x), sibling (heap e1 x)]\<rparr>"
    by (auto simp: commit_work_def split: option.splits sum.splits)
  from apply_effect_frame[OF mid] show ?thesis using fin by (simp add: frame_def roots_kept_def)
qed

lemma commit_loop_frame:
  "commit_loop e = Some r \<Longrightarrow> (\<forall>e'. r = Inr e' \<longrightarrow> frame e e' \<and> roots_kept e e')"
proof (induction rule: commit_loop.raw_induct[rotated 1, consumes 1])
  case (1 cl e r)
  show ?case
  proof (cases "work e")
    case Nil
    with 1(2) show ?thesis by (auto simp: frame_refl roots_kept_refl)
  next
    case (Cons w ws)
    show ?thesis
    proof (cases "commit_work w (e\<lparr>work := ws\<rparr>)")
      case None
      with 1(2) Cons show ?thesis by simp
    next
      case (Some r1)
      show ?thesis
      proof (cases r1)
        case (Inl err)
        with 1(2) Cons Some show ?thesis by auto
      next
        case (Inr e1)
        with 1(2) Cons Some have "cl e1 = Some r" by simp
        from 1(1)[OF this] commit_work_frame[OF Some[unfolded Inr]]
        show ?thesis by (auto simp: frame_def roots_kept_def)
      qed
    qed
  qed
qed

lemma commit_root_frame:
  assumes "commit_root e = Some (Inr e')"
  shows "frame e e' \<and> wip_root e' = None \<and> current_root e' = wip_root e"
proof -
  from assms obtain w e1 where w: "wip_root e = Some w"
    and l: "commit_loop (e\<lparr>work := work e @ map Some (deletions e) @ [child (heap e w)], deletions := []\<rparr>) = Some (Inr e1)"
    and f: "e' = e1\<lparr>current_root := wip_root e1, wip_root := None\<rparr>"
    by (auto simp: commit_root_def split: option.splits sum.splits)
  from commit_loop_frame[OF l] f show ?thesis by (auto simp: frame_def roots_kept_def)
qed

section \<open>The work loop in the synchronous mode\<close>

lemma run_units_exhausts:
  "run_units ev n e = Some (Inr e') \<Longrightarrow>
     next_unit_of_work e' = None \<and> event_loop_type e' = event_loop_type e
     \<and> scheduled e' = scheduled e \<and> request e' = request e
     \<and> render_callback e' = render_callback e \<and> roots_kept e e'"
proof (induction n arbitrary: e)
  case 0
  then show ?case by (auto simp: roots_kept_def split: option.splits)
next
  case (Suc n)
  show ?case
  proof (cases "next_unit_of_work e")
    case None
    with Suc.prems show ?thesis by (auto simp: roots_kept_def)
  next
    case (Some u)
    with Suc.prems obtain nxt e1 where p: "perform_unit_of_work ev u e = Some (Inr (nxt, e1))"
      and r: "run_units ev n (e1\<lparr>next_unit_of_work := nxt, ticks := Suc (ticks e1)\<rparr>) = Some (Inr e')"
      by (auto split: option.splits sum.splits)
    from Suc.IH[OF r] perform_unit_of_work_frame[OF p]
    show ?thesis by (auto simp: frame_def roots_kept_def)
  qed
qed

text \<open>Where the mode is truthy the loop never reads the deadline: it runs the units.\<close>

lemma perform_units_runs:
  assumes "truthy ev (event_loop_type e)" and "run_units ev n e = Some r"
  shows "perform_units ev deadline False e = Some r"
  using assms
proof (induction n arbitrary: e)
  case 0
  then show ?case by (subst perform_units.simps) (auto split: option.splits)
next
  case (Suc n)
  show ?case
  proof (cases "next_unit_of_work e")
    case None
    with Suc.prems show ?thesis by (subst perform_units.simps) auto
  next
    case (Some u)
    show ?thesis
    proof (cases "perform_unit_of_work ev u e")
      case None
      with Suc.prems Some show ?thesis by simp
    next
      case (Some r1)
      show ?thesis
      proof (cases r1)
        case (Inl err)
        with Suc.prems \<open>next_unit_of_work e = Some u\<close> Some show ?thesis
          by (subst perform_units.simps) auto
      next
        case (Inr p)
        obtain nxt e1 where p: "p = (nxt, e1)" by (cases p)
        let ?e2 = "e1\<lparr>next_unit_of_work := nxt, ticks := Suc (ticks e1)\<rparr>"
        from Suc.prems \<open>next_unit_of_work e = Some u\<close> Some Inr p
        have r: "run_units ev n ?e2 = Some r" by simp
        from perform_unit_of_work_frame[OF Some[unfolded Inr p]]
        have m: "event_loop_type ?e2 = event_loop_type e" by (simp add: frame_def)
        with Suc.prems(1) have "truthy ev (event_loop_type ?e2)" by simp
        from Suc.IH[OF this r] have "perform_units ev deadline False ?e2 = Some r" .
        then show ?thesis
          using \<open>next_unit_of_work e = Some u\<close> Some Inr p m Suc.prems(1)
          by (subst perform_units.simps) (simp add: Let_def)
      qed
    qed
  qed
qed

lemma work_loop_sync_pass:
  assumes t: "truthy ev (event_loop_type e)" and s: "sync_pass ev n e = Some r"
  shows "work_loop ev deadline e = Some r"
proof -
  from s obtain r1 where r1: "run_units ev n e = Some r1"
    by (auto simp: sync_pass_def then_do_def split: option.splits)
  have pu: "perform_units ev deadline False e = Some r1" using t r1 by (rule perform_units_runs)
  show ?thesis
  proof (cases r1)
    case (Inl err)
    with s r1 have "r = Inl err" by (simp add: sync_pass_def then_do_def)
    with pu Inl show ?thesis
      by (subst work_loop.simps) simp
  next
    case (Inr e1)
    from run_units_exhausts[OF r1[unfolded Inr]] have n1: "next_unit_of_work e1 = None" by simp
    let ?c = "(if wip_root e1 \<noteq> None then commit_root e1 else Some (Inr e1))"
    from s r1 Inr obtain r2 where r2: "?c = Some r2"
      by (auto simp: sync_pass_def then_do_def split: option.splits if_splits)
    show ?thesis
    proof (cases r2)
      case (Inl err)
      with s r1 \<open>r1 = Inr e1\<close> r2 have "r = Inl err"
        by (auto simp: sync_pass_def then_do_def split: if_splits)
      with \<open>r1 = Inr e1\<close> pu n1 r2 Inl show ?thesis
        by (subst work_loop.simps) (auto split: if_splits)
    next
      case (Inr e2)
      have "next_unit_of_work e2 = None"
        using r2 Inr n1 by (auto split: if_splits dest: commit_root_frame simp: frame_def)
      moreover from s r1 \<open>r1 = Inr e1\<close> r2 Inr
      have "r = Inr (case render_callback e2 of Some cb \<Rightarrow> emit [RenderCallback cb] e2 | None \<Rightarrow> e2)"
        by (auto simp: sync_pass_def then_do_def split: if_splits)
      ultimately show ?thesis using \<open>r1 = Inr e1\<close> pu n1 r2 Inr
        by (subst work_loop.simps) (auto split: if_splits option.splits)
    qed
  qed
qed

lemma perform_units_is_run:
  "perform_units ev deadline sy e = Some r \<Longrightarrow>
     truthy ev (event_loop_type e) \<longrightarrow> \<not> sy \<longrightarrow> (\<exists>n. run_units ev n e = Some r)"
proof (induction rule: perform_units.raw_induct[rotated 1, consumes 1])
  case (1 pu ev deadline sy e r)
  show ?case
  proof (intro impI)
    assume t: "truthy ev (event_loop_type e)" and ny: "\<not> sy"
    show "\<exists>n. run_units ev n e = Some r"
    proof (cases "next_unit_of_work e")
      case None
      with 1(2) have "run_units ev 0 e = Some r" by simp
      then show ?thesis ..
    next
      case (Some u)
      show ?thesis
      proof (cases "perform_unit_of_work ev u e")
        case None
        with 1(2) Some ny show ?thesis by simp
      next
        case (Some r1)
        show ?thesis
        proof (cases r1)
          case (Inl err)
          with 1(2) \<open>next_unit_of_work e = Some u\<close> Some ny
          have "run_units ev (Suc 0) e = Some r" by simp
          then show ?thesis ..
        next
          case (Inr p)
          obtain nxt e1 where p: "p = (nxt, e1)" by (cases p)
          let ?e2 = "e1\<lparr>next_unit_of_work := nxt, ticks := Suc (ticks e1)\<rparr>"
          from perform_unit_of_work_frame[OF Some[unfolded Inr p]]
          have m: "event_loop_type ?e2 = event_loop_type e" by (simp add: frame_def)
          with t have t2: "truthy ev (event_loop_type ?e2)" by simp
          from 1(2) \<open>next_unit_of_work e = Some u\<close> Some Inr p ny t m
          have "pu ev deadline False ?e2 = Some r" by (simp add: Let_def)
          from 1(1)[OF this] t2 obtain n where "run_units ev n ?e2 = Some r" by auto
          with \<open>next_unit_of_work e = Some u\<close> Some Inr p
          have "run_units ev (Suc n) e = Some r" by simp
          then show ?thesis ..
        qed
      qed
    qed
  qed
qed

lemma work_loop_is_sync_pass:
  assumes t: "truthy ev (event_loop_type e)" and w: "work_loop ev deadline e = Some r"
  shows "\<exists>n. sync_pass ev n e = Some r"
proof -
  from w obtain r1 where pu: "perform_units ev deadline False e = Some r1"
    by (subst (asm) work_loop.simps) (auto split: option.splits)
  from perform_units_is_run[OF pu] t obtain n where r1: "run_units ev n e = Some r1" by auto
  show ?thesis
  proof (cases r1)
    case (Inl err)
    with w pu have "r = Inl err" by (subst (asm) work_loop.simps) simp
    with r1 Inl have "sync_pass ev n e = Some r" by (simp add: sync_pass_def then_do_def)
    then show ?thesis ..
  next
    case (Inr e1)
    from run_units_exhausts[OF r1[unfolded Inr]] have n1: "next_unit_of_work e1 = None" by simp
    let ?c = "(if wip_root e1 \<noteq> None then commit_root e1 else Some (Inr e1))"
    from w pu Inr n1 obtain r2 where r2: "?c = Some r2"
      by (subst (asm) work_loop.simps) (auto split: option.splits if_splits)
    show ?thesis
    proof (cases r2)
      case (Inl err)
      with w pu \<open>r1 = Inr e1\<close> n1 r2 have "r = Inl err"
        by (subst (asm) work_loop.simps) (auto split: if_splits)
      with r1 \<open>r1 = Inr e1\<close> r2 Inl have "sync_pass ev n e = Some r"
        by (auto simp: sync_pass_def then_do_def split: if_splits)
      then show ?thesis ..
    next
      case (Inr e2)
      have n2: "next_unit_of_work e2 = None"
        using r2 Inr n1 by (auto split: if_splits dest: commit_root_frame simp: frame_def)
      with w pu \<open>r1 = Inr e1\<close> n1 r2 Inr
      have "r = Inr (case render_callback e2 of Some cb \<Rightarrow> emit [RenderCallback cb] e2 | None \<Rightarrow> e2)"
        by (subst (asm) work_loop.simps) (auto split: if_splits option.splits)
      with r1 \<open>r1 = Inr e1\<close> r2 Inr have "sync_pass ev n e = Some r"
        by (auto simp: sync_pass_def then_do_def split: if_splits)
      then show ?thesis ..
    qed
  qed
qed

lemma sync_pass_result:
  assumes "sync_pass ev n e = Some (Inr e')"
  shows "next_unit_of_work e' = None \<and> scheduled e' = scheduled e
         \<and> (wip_root e \<noteq> None \<longrightarrow> wip_root e' = None \<and> current_root e' = wip_root e)
         \<and> (\<forall>k. render_callback e = Some k \<longrightarrow> trace e' \<noteq> [] \<and> last (trace e') = RenderCallback k)"
proof -
  from assms obtain e1 where r1: "run_units ev n e = Some (Inr e1)"
    by (auto simp: sync_pass_def then_do_def split: option.splits sum.splits)
  note x = run_units_exhausts[OF r1]
  from assms r1 obtain e2 where
    r2: "(if wip_root e1 \<noteq> None then commit_root e1 else Some (Inr e1)) = Some (Inr e2)"
    and f: "e' = (case render_callback e2 of Some cb \<Rightarrow> emit [RenderCallback cb] e2 | None \<Rightarrow> e2)"
    by (auto simp: sync_pass_def then_do_def split: option.splits sum.splits if_splits)
  have y: "frame e1 e2 \<and> (wip_root e1 \<noteq> None \<longrightarrow> wip_root e2 = None \<and> current_root e2 = wip_root e1)"
    using r2 by (auto split: if_splits dest: commit_root_frame simp: frame_refl)
  show ?thesis using x y f
    by (auto simp: frame_def roots_kept_def emit_def split: option.splits)
qed

lemma render_prepare_fields:
  "event_loop_type (render_prepare el c cb e) = event_loop_type e"
  "scheduled (render_prepare el c cb e) = scheduled e"
  "render_callback (render_prepare el c cb e) = cb"
  "wip_root (render_prepare el c cb e) \<noteq> None"
  by (simp_all add: render_prepare_def alloc_def upd_def Let_def)

lemma tick_fields:
  "event_loop_type (tick e) = event_loop_type e" "scheduled (tick e) = scheduled e"
  "render_callback (tick e) = render_callback e" "wip_root (tick e) = wip_root e"
  by (simp_all add: tick_def)

lemma render_sync: "event_loop_type e = SYNC \<Longrightarrow>
    render ev el c cb e = work_loop ev None (tick (render_prepare el c cb e))"
  by (simp add: render_def request_idle_work_def tick_def render_prepare_fields Let_def)

text \<open>
  C7. In SYNC mode (the mode being truthy, as \<open>work_loop\<close> needs for it to run at all
  with its \<open>deadline=None\<close>), a call of \<open>render\<close> is one synchronous pass: it
  returns exactly when some number of units exhausts the work and the commit returns,
  with the result of performing all units, committing and calling the callback; no
  deadline and no reading of the clock enters. When it returns, no unit of work is
  left, the work-in-progress root has been committed, nothing has been asked of a host
  loop, and the callback, if one was given, was the last thing called.
\<close>

theorem sync_render_runs_to_exhaustion:
  assumes t: "truthy ev SYNC" and m: "event_loop_type e = SYNC"
  shows "(render ev el c cb e = Some r
            \<longleftrightarrow> (\<exists>n. sync_pass ev n (tick (render_prepare el c cb e)) = Some r))
       \<and> (\<forall>e'. render ev el c cb e = Some (Inr e')
            \<longrightarrow> next_unit_of_work e' = None \<and> wip_root e' = None \<and> scheduled e' = scheduled e
                \<and> (\<forall>k. cb = Some k \<longrightarrow> trace e' \<noteq> [] \<and> last (trace e') = RenderCallback k))"
proof -
  let ?e0 = "tick (render_prepare el c cb e)"
  have t0: "truthy ev (event_loop_type ?e0)" using t m by (simp add: tick_fields render_prepare_fields)
  have eq: "render ev el c cb e = work_loop ev None ?e0" using m by (rule render_sync)
  have a: "render ev el c cb e = Some r \<longleftrightarrow> (\<exists>n. sync_pass ev n ?e0 = Some r)" for r
    unfolding eq using work_loop_sync_pass[OF t0] work_loop_is_sync_pass[OF t0] by blast
  have b: "next_unit_of_work e' = None \<and> wip_root e' = None \<and> scheduled e' = scheduled e
           \<and> (\<forall>k. cb = Some k \<longrightarrow> trace e' \<noteq> [] \<and> last (trace e') = RenderCallback k)"
    if "render ev el c cb e = Some (Inr e')" for e'
  proof -
    from that a obtain n where "sync_pass ev n ?e0 = Some (Inr e')" by blast
    from sync_pass_result[OF this] show ?thesis
      by (simp add: tick_fields render_prepare_fields)
  qed
  show ?thesis using a b by blast
qed

theorem sync_render_witness:
  "truthy plain_enum SYNC \<and> event_loop_type (PyGui SYNC) = SYNC
   \<and> sync_pass plain_enum 4 (tick (render_prepare box 0 (Some 7) (PyGui SYNC)))
       = render plain_enum box 0 (Some 7) (PyGui SYNC)
   \<and> observe (\<lambda>e. (next_unit_of_work e, wip_root e, scheduled e, last (trace e)))
        (render plain_enum box 0 (Some 7) (PyGui SYNC))
       = Some (Inr (None, None, [], RenderCallback 7))"
proof -
  have t: "truthy plain_enum SYNC" by (simp add: plain_enum_def)
  have m: "event_loop_type (PyGui SYNC) = SYNC" by (simp add: PyGui_def)
  obtain r where r: "render plain_enum box 0 (Some 7) (PyGui SYNC) = Some r"
    and o: "observe (\<lambda>e. (next_unit_of_work e, wip_root e, scheduled e, last (trace e))) (Some r)
       = Some (Inr (None, None, [], RenderCallback 7))"
    by (simp add: engine_defs plain_enum_def box_def update_dom_defs)
  have s: "sync_pass plain_enum 4 (tick (render_prepare box 0 (Some 7) (PyGui SYNC))) = Some r"
    using r by (simp add: sync_pass_def eval_nat_numeral engine_defs plain_enum_def box_def update_dom_defs)
  show ?thesis
    using t m r o s sync_render_runs_to_exhaustion[OF t m, of box 0 "Some 7" r]
    by simp
qed

text \<open>
  C8 on the code. The engine is in DEFAULT mode and the clock is already a second
  past the deadline when the first unit is done. The work loop tests
  \<open>not self.event_loop_type and ...\<close>; a member of a plain \<open>Enum\<close> is true, so
  \<open>should_yield\<close> stays false: all four units are performed and the tree is
  committed in the one invocation, and the host loop is asked nothing more (the one
  entry of \<open>scheduled\<close> is the request \<open>render\<close> made).
\<close>

theorem deadline_passed_and_no_yield:
  "observe (\<lambda>e. (trace e, next_unit_of_work e, scheduled e))
     (then_do (render plain_enum box 0 (Some 9) (PyGui DEFAULT))
        (work_loop plain_enum (Some 16000000)))
    = Some (Inr ([CreateElement (Some (Host ''box'')) 1, CreateElement (Some (Host ''a'')) 2,
                  CreateElement (Some (Host ''b'')) 3, Insert 1 0, Insert 2 1, Insert 3 1,
                  RenderCallback 9],
                 None, [16000000]))"
  by (simp add: engine_defs plain_enum_def box_def update_dom_defs)

section \<open>The scenario of the box\<close>




section \<open>state_updated\<close>

lemma alternate_after_watcher_cleared:
  "alternate (heap (upd fb (\<lambda>f. f\<lparr>watcher := None\<rparr>) e) c) = alternate (heap e c)"
  by (simp add: upd_def)

text \<open>
  C9, as amended. For every notification on a fiber of an engine with a current root,
  \<open>state_updated\<close> hands to \<open>request_idle_work\<close> an engine whose work-in-progress root
  has the backend node, props and children of the current root and the current root as
  its alternate, with that fiber's watch cleared, the deletions list empty and the new
  root as the next unit of work. In the two modes with a host loop this is the engine
  it leaves.
\<close>

theorem state_updated_prepares_wip_root:
  assumes cur: "current_root e = Some c" and al: "c < next_ref e"
  shows "(\<exists>e0. state_updated_prepare fb e = Inr e0 \<and> wip_mirrors e c fb e0
               \<and> state_updated ev fb e = request_idle_work ev None e0)
       \<and> (event_loop_type e \<noteq> SYNC \<longrightarrow>
            (\<exists>e'. state_updated ev fb e = Some (Inr e') \<and> wip_mirrors e c fb e'))"
proof -
  have "\<exists>e0. state_updated_prepare fb e = Inr e0 \<and> wip_mirrors e c fb e0
              \<and> event_loop_type e0 = event_loop_type e"
    using cur al
    by (cases "alternate (heap e c)"; cases "c = fb")
       (simp_all add: state_updated_prepare_def wip_mirrors_def Let_def or_Fiber_def alloc_def upd_def Fiber_def)
  then obtain e0 where p: "state_updated_prepare fb e = Inr e0" and m: "wip_mirrors e c fb e0"
    and t: "event_loop_type e0 = event_loop_type e" by blast
  have s: "state_updated ev fb e = request_idle_work ev None e0"
    by (simp add: state_updated_def p)
  have "event_loop_type e \<noteq> SYNC \<Longrightarrow>
            (\<exists>e'. state_updated ev fb e = Some (Inr e') \<and> wip_mirrors e c fb e')"
    using m t by (auto simp: s request_idle_work_def schedule_def wip_mirrors_def split: option.splits)
  then show ?thesis using p m s by blast
qed

theorem state_updated_witness:
  "current_root (engine_of (then_do (render plain_enum box 0 None (PyGui DEFAULT))
                                     (work_loop plain_enum (Some 16000000)))) = Some 0
   \<and> 0 < next_ref (engine_of (then_do (render plain_enum box 0 None (PyGui DEFAULT))
                                       (work_loop plain_enum (Some 16000000))))
   \<and> event_loop_type (engine_of (then_do (render plain_enum box 0 None (PyGui DEFAULT))
                                       (work_loop plain_enum (Some 16000000)))) \<noteq> SYNC
   \<and> observe (wip_mirrors (engine_of (then_do (render plain_enum box 0 None (PyGui DEFAULT))
                                       (work_loop plain_enum (Some 16000000)))) 0 1)
        (state_updated plain_enum 1
           (engine_of (then_do (render plain_enum box 0 None (PyGui DEFAULT))
                               (work_loop plain_enum (Some 16000000)))))
      = Some (Inr True)"
proof -
  define E where "E = engine_of (then_do (render plain_enum box 0 None (PyGui DEFAULT))
                                         (work_loop plain_enum (Some 16000000)))"
  have c: "current_root E = Some 0" and n: "0 < next_ref E" and m: "event_loop_type E \<noteq> SYNC"
    unfolding E_def
    by (simp_all add: engine_of_def engine_defs plain_enum_def box_def update_dom_defs)
  from state_updated_prepares_wip_root[OF c n, of 1 plain_enum] m
  have "observe (wip_mirrors E 0 1) (state_updated plain_enum 1 E) = Some (Inr True)"
    by (auto simp: observe_def)
  with c n m show ?thesis unfolding E_def by simp
qed

text \<open>
  C9 as stated fails in SYNC mode: \<open>request_idle_work\<close> runs the whole pass before
  \<open>state_updated\<close> returns, so the engine it leaves has no work-in-progress root and
  no next unit of work; the root built for the pass is the current root by then.
\<close>

theorem sync_state_updated_leaves_no_wip_root:
  "observe (\<lambda>e. (wip_root e, next_unit_of_work e, current_root e))
     (then_do (render plain_enum
                 (VNode (Host ''label'') [(''text'', PStr ''a'')] [] None) 0 None (PyGui SYNC))
        (state_updated plain_enum 1))
   = Some (Inr (None, None, Some 2))"
  by (simp add: engine_defs plain_enum_def update_dom_defs)

section \<open>perform_unit_of_work\<close>


lemma next_sibling_up_complete:
  "first_sibling_up h r res \<Longrightarrow> next_sibling_up h (Some r) = Some res"
proof (induction rule: first_sibling_up.induct)
  case (here r s)
  then show ?case by (subst next_sibling_up.simps) simp
next
  case (top r)
  then show ?case
    by (subst next_sibling_up.simps) (simp, subst next_sibling_up.simps, simp)
next
  case (up r p res)
  then show ?case by (subst next_sibling_up.simps) simp
qed


lemma first_sibling_up_unique:
  "first_sibling_up h r a \<Longrightarrow> first_sibling_up h r b \<Longrightarrow> a = b"
  using next_sibling_up_complete[of h r a] next_sibling_up_complete[of h r b] by simp





section \<open>The loop of reconcile_children\<close>

lemma sib_chain_cong:
  "(\<And>x. x \<in> set rs \<Longrightarrow> sibling (h' x) = sibling (h x)) \<Longrightarrow> sib_chain h' p rs = sib_chain h p rs"
  by (induction rs arbitrary: p) auto

lemma sib_chain_unique: "sib_chain h p rs \<Longrightarrow> sib_chain h p rs' \<Longrightarrow> rs = rs'"
proof (induction rs arbitrary: p rs')
  case Nil
  then show ?case by (cases rs') auto
next
  case (Cons r rs)
  then show ?case by (cases rs') auto
qed

lemma sib_chain_tail_notin: "sib_chain h (sibling (h r)) rs \<Longrightarrow> r \<notin> set rs"
proof
  assume c: "sib_chain h (sibling (h r)) rs" and m: "r \<in> set rs"
  then obtain as bs where s: "rs = as @ r # bs" by (auto simp: in_set_conv_decomp)
  have "\<And>p. sib_chain h p (as @ r # bs) \<Longrightarrow> sib_chain h (sibling (h r)) bs"
    by (induction as) auto
  with c s have "sib_chain h (sibling (h r)) bs" by simp
  with c have "rs = bs" by (rule sib_chain_unique)
  with s show False by simp
qed

lemma sib_chain_distinct: "sib_chain h p rs \<Longrightarrow> distinct rs"
  by (induction rs arbitrary: p) (auto dest: sib_chain_tail_notin)

lemma all_fields_assigned:
  "(f::fiber)\<lparr>type := t, props := p, props_snapshot := ps, children := cs, dom := d,
      parent := pa, alternate := al, child := c, sibling := sb, effect_tag := tg, watcher := wa\<rparr>
   = \<lparr>type = t, props = p, props_snapshot = ps, children = cs, dom = d, parent = pa,
      child = c, sibling = sb, alternate = al, effect_tag = tg, watcher = wa\<rparr>"
  by (cases f) simp

lemma configure_update_eq:
  assumes "type (heap e ol) = Some (vtype el)" "ol \<noteq> next_ref e"
  shows "configure_update w (Some ol) (Some el) True e =
     (case alternate (heap e ol) of
        Some a \<Rightarrow> (Some a, put a (configured el w (dom (heap e ol)) (Some ol) UPDATE) e)
      | None \<Rightarrow> (Some (next_ref e),
                 put (next_ref e) (configured el w (dom (heap e ol)) (Some ol) UPDATE)
                   (e\<lparr>next_ref := Suc (next_ref e)\<rparr>)))"
  using assms
  by (cases "alternate (heap e ol)")
     (simp_all add: configure_update_def or_Fiber_def alloc_def upd_def put_def configured_def all_fields_assigned)

lemma configure_placement_eq:
  "configure_placement w None (Some el) False nf e =
     (Some (next_ref e),
      put (next_ref e) (configured el w None None PLACEMENT) (e\<lparr>next_ref := Suc (next_ref e)\<rparr>))"
  by (simp add: configure_placement_def or_Fiber_def alloc_def upd_def put_def configured_def all_fields_assigned)

lemma put_simps [simp]:
  "heap (put r f e) = (heap e)(r := f)" "next_ref (put r f e) = next_ref e"
  "deletions (put r f e) = deletions e"
  by (simp_all add: put_def)

lemma upd_simps [simp]:
  "heap (upd r g e) = (heap e)(r := g (heap e r))" "next_ref (upd r g e) = next_ref e"
  "deletions (upd r g e) = deletions e"
  by (simp_all add: upd_def)

lemma configured_simps [simp]:
  "effect_tag (configured el w d alt t) = Some t" "sibling (configured el w d alt t) = None"
  "child (configured el w d alt t) = None"
  by (simp_all add: configured_def)

lemma step_update:
  assumes i: "i < length els" and ty: "type (heap e ol) = Some (vtype (els ! i))"
    and ol: "ol < next_ref e"
    and n: "n = (case alternate (heap e ol) of Some a \<Rightarrow> a | None \<Rightarrow> next_ref e)"
    and nol: "n \<noteq> ol"
    and ps: "0 < i \<longrightarrow> ps \<noteq> None"
  shows "reconcile_step w els i (Some ol) ps e =
           Inr (sibling (heap e ol), Some n,
                linked w i ps (Some n)
                  (put n (configured (els ! i) w (dom (heap e ol)) (Some ol) UPDATE)
                     (e\<lparr>next_ref := (if alternate (heap e ol) = None then Suc (next_ref e)
                                      else next_ref e)\<rparr>)))"
proof -
  have st: "same_type (heap e) (Some ol) (Some (els ! i))" using ty by (simp add: same_type_def)
  have olnr: "ol \<noteq> next_ref e" using ol by simp
  show ?thesis
  proof (cases "alternate (heap e ol)")
    case None
    with n have nn: "n = next_ref e" by simp
    show ?thesis
      using i st ps nol None nn
      by (auto simp: reconcile_step_def Let_def configure_update_eq[OF ty olnr]
            configure_placement_def mark_deletion_def link_fiber_def linked_def
            split: option.splits)
  next
    case (Some a)
    with n have nn: "n = a" by simp
    show ?thesis
      using i st ps nol Some nn
      by (auto simp: reconcile_step_def Let_def configure_update_eq[OF ty olnr]
            configure_placement_def mark_deletion_def link_fiber_def linked_def
            split: option.splits)
  qed
qed

lemma step_placement:
  assumes i: "i < length els" and ps: "0 < i \<longrightarrow> ps \<noteq> None"
  shows "reconcile_step w els i None ps e =
           Inr (None, Some (next_ref e),
                linked w i ps (Some (next_ref e))
                  (put (next_ref e) (configured (els ! i) w None None PLACEMENT)
                     (e\<lparr>next_ref := Suc (next_ref e)\<rparr>)))"
  using i ps
  by (auto simp: reconcile_step_def Let_def same_type_def configure_update_def
        configure_placement_eq mark_deletion_def link_fiber_def linked_def split: option.splits)

lemma step_deletion:
  assumes i: "\<not> i < length els"
  shows "reconcile_step w els i (Some ol) ps e =
           Inr (sibling (heap e ol), None,
                linked w i None None
                  ((upd ol (\<lambda>f. f\<lparr>effect_tag := Some DELETION\<rparr>) e)\<lparr>deletions := deletions e @ [ol]\<rparr>))"
  using i
  by (auto simp: reconcile_step_def Let_def same_type_def configure_update_def
        configure_placement_def mark_deletion_def link_fiber_def linked_def upd_def split: option.splits)

lemma deletion_loop:
  assumes "sib_chain (heap e) old ro" and "\<not> i < length els"
  shows "\<exists>e'. reconcile_loop w els i old ps e = Some (Inr e')
           \<and> deletions e' = deletions e @ ro \<and> next_ref e' = next_ref e
           \<and> (\<forall>x. heap e' x =
                 (heap e x)\<lparr>effect_tag := (if x \<in> set ro then Some DELETION
                                            else effect_tag (heap e x)),
                            child := (if i = 0 \<and> ro \<noteq> [] \<and> x = w then None
                                      else child (heap e x))\<rparr>)"
  using assms
proof (induction ro arbitrary: old i ps e)
  case Nil
  then show ?case by (subst reconcile_loop.simps) simp
next
  case (Cons ol ro)
  from Cons.prems(1) have old: "old = Some ol" and ch: "sib_chain (heap e) (sibling (heap e ol)) ro"
    by simp_all
  let ?e4 = "linked w i None None
               ((upd ol (\<lambda>f. f\<lparr>effect_tag := Some DELETION\<rparr>) e)\<lparr>deletions := deletions e @ [ol]\<rparr>)"
  have sib: "sibling (heap ?e4 x) = sibling (heap e x)" for x
    by (simp add: linked_def)
  have ch4: "sib_chain (heap ?e4) (sibling (heap e ol)) ro"
    using ch sib_chain_cong[of ro "heap ?e4" "heap e"] sib by simp
  have i1: "\<not> i + 1 < length els" using Cons.prems(2) by simp
  from Cons.IH[OF ch4 i1, of None] obtain e' where
    l: "reconcile_loop w els (i + 1) (sibling (heap e ol)) None ?e4 = Some (Inr e')"
    and d: "deletions e' = deletions ?e4 @ ro" and nr: "next_ref e' = next_ref ?e4"
    and h: "\<And>x. heap e' x =
                 (heap ?e4 x)\<lparr>effect_tag := (if x \<in> set ro then Some DELETION
                                            else effect_tag (heap ?e4 x)),
                            child := (if i + 1 = 0 \<and> ro \<noteq> [] \<and> x = w then None
                                      else child (heap ?e4 x))\<rparr>"
    by blast
  have "reconcile_loop w els i old ps e = Some (Inr e')"
    using old l step_deletion[OF Cons.prems(2), of w ol ps e]
    by (subst reconcile_loop.simps) simp
  moreover have "deletions e' = deletions e @ ol # ro" using d by (simp add: linked_def)
  moreover have "next_ref e' = next_ref e" using nr by (simp add: linked_def)
  moreover have "heap e' x =
                 (heap e x)\<lparr>effect_tag := (if x \<in> set (ol # ro) then Some DELETION
                                            else effect_tag (heap e x)),
                            child := (if i = 0 \<and> ol # ro \<noteq> [] \<and> x = w then None
                                      else child (heap e x))\<rparr>" for x
    unfolding h by (simp add: linked_def)
  ultimately show ?case by blast
qed

lemma alternates_Cons:
  "alternates h (r # rs) = (case alternate (h r) of Some a \<Rightarrow> a # alternates h rs | None \<Rightarrow> alternates h rs)"
  by (simp add: alternates_def split: option.splits)

lemma alternates_cong:
  "(\<And>x. x \<in> set rs \<Longrightarrow> alternate (h' x) = alternate (h x)) \<Longrightarrow> alternates h' rs = alternates h rs"
  by (induction rs) (simp_all add: alternates_Cons split: option.splits, simp add: alternates_def)

lemma main_loop:
  assumes "k = length els - i" and "i \<le> length els"
    and "sib_chain (heap e) old ro"
    and "\<forall>j < min k (length ro). type (heap e (ro ! j)) = Some (vtype (els ! (i + j)))"
    and "distinct (alternates (heap e) (take k ro))"
    and "\<forall>a \<in> set (alternates (heap e) (take k ro)).
            a < next_ref e \<and> a \<noteq> w \<and> a \<notin> set ro \<and> a \<notin> P"
    and "w < next_ref e" and "\<forall>x \<in> set ro. x < next_ref e" and "\<forall>x \<in> P. x < next_ref e"
    and "w \<notin> P" and "P \<inter> set ro = {}"
    and "0 < i \<longrightarrow> i < length els \<longrightarrow> (\<exists>p. ps = Some p \<and> p \<in> P)"
  shows "\<exists>e' ns. reconcile_loop w els i old ps e = Some (Inr e')
     \<and> length ns = k
     \<and> (i = 0 \<longrightarrow> (els \<noteq> [] \<or> ro \<noteq> []) \<longrightarrow> sib_chain (heap e') (child (heap e' w)) ns)
     \<and> (0 < i \<longrightarrow> child (heap e' w) = child (heap e w))
     \<and> (0 < i \<longrightarrow> i < length els \<longrightarrow>
          (\<forall>p. ps = Some p \<longrightarrow> sib_chain (heap e') (sibling (heap e' p)) ns
                               \<and> effect_tag (heap e' p) = effect_tag (heap e p)))
     \<and> (\<forall>x \<in> P. (0 < i \<and> i < length els \<and> ps = Some x) \<or> heap e' x = heap e x)
     \<and> map (\<lambda>n. effect_tag (heap e' n)) ns
          = replicate (min k (length ro)) (Some UPDATE) @ replicate (k - length ro) (Some PLACEMENT)
     \<and> deletions e' = deletions e @ drop k ro
     \<and> (\<forall>d \<in> set (drop k ro). effect_tag (heap e' d) = Some DELETION)"
  using assms
proof (induction k arbitrary: i old ro ps e P)
  case 0
  then have ni: "\<not> i < length els" by simp
  from deletion_loop[OF "0.prems"(3) ni, of w ps] obtain e' where
    l: "reconcile_loop w els i old ps e = Some (Inr e')"
    and d: "deletions e' = deletions e @ ro"
    and h: "\<And>x. heap e' x =
                 (heap e x)\<lparr>effect_tag := (if x \<in> set ro then Some DELETION
                                            else effect_tag (heap e x)),
                            child := (if i = 0 \<and> ro \<noteq> [] \<and> x = w then None
                                      else child (heap e x))\<rparr>"
    by blast
  have els: "i = 0 \<Longrightarrow> els = []" using "0.prems"(1,2) by simp
  have fr: "heap e' x = heap e x" if "x \<in> P" for x
  proof -
    from that "0.prems"(10,11) have "x \<noteq> w" "x \<notin> set ro" by auto
    then show ?thesis unfolding h by simp
  qed
  show ?case
    apply (rule exI[of _ e'], rule exI[of _ "[]"])
    using l d ni els fr by (auto simp: h)
next
  case (Suc k)
  then have il: "i < length els" and k: "k = length els - (i + 1)" by simp_all
  from Suc.prems(12) il have ps: "0 < i \<longrightarrow> ps \<noteq> None" by auto
  \<comment> \<open>the new fiber of this pass and the engine after it\<close>
  define alt where "alt = (case ro of [] \<Rightarrow> None | ol # _ \<Rightarrow> alternate (heap e ol))"
  define n where "n = (case alt of Some a \<Rightarrow> a | None \<Rightarrow> next_ref e)"
  define cf where "cf = (case ro of [] \<Rightarrow> configured (els ! i) w None None PLACEMENT
                          | ol # _ \<Rightarrow> configured (els ! i) w (dom (heap e ol)) (Some ol) UPDATE)"
  define E where "E = put n cf (e\<lparr>next_ref := (if alt = None then Suc (next_ref e) else next_ref e)\<rparr>)"
  define e4 where "e4 = linked w i ps (Some n) E"
  define old' where "old' = (case ro of [] \<Rightarrow> None | ol # _ \<Rightarrow> sibling (heap e ol))"
  define ro' where "ro' = tl ro"
  have n_props: "n \<noteq> w \<and> n \<notin> set ro \<and> n \<notin> P \<and> n < next_ref E \<and> next_ref e \<le> next_ref E
                 \<and> (alt = None \<longrightarrow> n = next_ref e) \<and> (\<forall>a. alt = Some a \<longrightarrow> n = a \<and> a < next_ref e)"
  proof (cases alt)
    case None
    then show ?thesis using Suc.prems(7,8,9) by (auto simp: n_def E_def)
  next
    case (Some a)
    then obtain ol rs where ro: "ro = ol # rs" and a: "alternate (heap e ol) = Some a"
      by (auto simp: alt_def split: list.splits)
    then have "a \<in> set (alternates (heap e) (take (Suc k) ro))" by (simp add: alternates_Cons)
    with Suc.prems(6) Some show ?thesis by (auto simp: n_def E_def)
  qed
  have step: "reconcile_step w els i old ps e = Inr (old', Some n, e4)"
  proof (cases ro)
    case Nil
    with Suc.prems(3) have "old = None" by simp
    with Nil show ?thesis
      using step_placement[OF il ps, of w e]
      by (simp add: old'_def e4_def E_def n_def alt_def cf_def)
  next
    case (Cons ol rs)
    with Suc.prems(3) have o: "old = Some ol" by simp
    from Suc.prems(4) Cons have ty: "type (heap e ol) = Some (vtype (els ! i))" by force
    from Suc.prems(8) Cons have ol: "ol < next_ref e" by simp
    have nn: "n = (case alternate (heap e ol) of Some a \<Rightarrow> a | None \<Rightarrow> next_ref e)"
      using Cons by (simp add: n_def alt_def)
    have nol: "n \<noteq> ol" using n_props Cons by auto
    show ?thesis
      using step_update[OF il ty ol nn nol ps, of w] o Cons
      by (simp add: old'_def e4_def E_def alt_def cf_def)
  qed
  \<comment> \<open>what the pass changed\<close>
  have hE: "heap E = (heap e)(n := cf)" by (simp add: E_def)
  have h4_other: "heap e4 x = heap e x" if "x \<noteq> n" "x \<noteq> w" "\<forall>p. ps = Some p \<longrightarrow> x \<noteq> p" for x
    using that by (auto simp: e4_def linked_def hE split: option.splits)
  have h4_sib: "sibling (heap e4 x) = sibling (heap e x)" if "x \<noteq> n" "\<forall>p. ps = Some p \<longrightarrow> x \<noteq> p" for x
    using that by (auto simp: e4_def linked_def hE split: option.splits)
  have h4_fields: "type (heap e4 x) = type (heap e x) \<and> alternate (heap e4 x) = alternate (heap e x)" if "x \<noteq> n" for x
    using that by (auto simp: e4_def linked_def hE split: option.splits)
  have pP: "\<forall>p. ps = Some p \<longrightarrow> 0 < i \<longrightarrow> p \<in> P" using Suc.prems(12) il by auto
  have h4_n: "effect_tag (heap e4 n) = effect_tag cf \<and> sibling (heap e4 n) = None"
  proof (cases "i = 0")
    case True
    then show ?thesis using n_props by (simp add: e4_def linked_def hE cf_def split: list.splits)
  next
    case False
    with Suc.prems(12) il obtain p where "ps = Some p" "p \<in> P" by auto
    with n_props have "p \<noteq> n" by auto
    with False \<open>ps = Some p\<close> show ?thesis by (simp add: e4_def linked_def hE cf_def split: list.splits)
  qed
  have d4: "deletions e4 = deletions e" and nr4: "next_ref e4 = next_ref E"
    by (auto simp: e4_def linked_def E_def split: option.splits)
  have ro_split: "ro = [] \<or> (\<exists>ol. ro = ol # ro')" by (cases ro) (auto simp: ro'_def)
  have set_ro': "set ro' \<subseteq> set ro" by (cases ro) (auto simp: ro'_def)
  have not_ps_ro: "\<forall>p. ps = Some p \<longrightarrow> 0 < i \<longrightarrow> p \<notin> set ro" using pP Suc.prems(11) by auto
  \<comment> \<open>the hypotheses for the rest of the loop\<close>
  have A3: "sib_chain (heap e4) old' ro'"
  proof -
    have "sib_chain (heap e) old' ro'"
      using Suc.prems(3) by (cases ro) (auto simp: old'_def ro'_def)
    moreover have "sibling (heap e4 x) = sibling (heap e x)" if "x \<in> set ro'" for x
    proof (cases "i = 0")
      case True
      from that set_ro' n_props have "x \<noteq> n" by auto
      then show ?thesis using True by (simp add: e4_def linked_def hE)
    next
      case False
      from that set_ro' n_props have "x \<noteq> n" by auto
      moreover from that set_ro' not_ps_ro False have "\<forall>p. ps = Some p \<longrightarrow> x \<noteq> p" by auto
      ultimately show ?thesis by (rule h4_sib)
    qed
    ultimately show ?thesis using sib_chain_cong[of ro' "heap e4" "heap e"] by simp
  qed
  have in_ro': "x \<in> set ro' \<Longrightarrow> x \<noteq> n" for x using set_ro' n_props by auto
  have A4: "\<forall>j < min k (length ro'). type (heap e4 (ro' ! j)) = Some (vtype (els ! (i + 1 + j)))"
  proof (intro allI impI)
    fix j assume j: "j < min k (length ro')"
    then have m: "ro' ! j \<in> set ro'" by simp
    from j obtain ol where ro: "ro = ol # ro'" by (cases ro) (auto simp: ro'_def)
    from j ro have "Suc j < min (Suc k) (length ro)" by simp
    with Suc.prems(4) have "type (heap e (ro ! Suc j)) = Some (vtype (els ! (i + Suc j)))" by blast
    with ro have "type (heap e (ro' ! j)) = Some (vtype (els ! (i + 1 + j)))" by simp
    with h4_fields[OF in_ro'[OF m]] show "type (heap e4 (ro' ! j)) = Some (vtype (els ! (i + 1 + j)))"
      by simp
  qed
  have alts': "alternates (heap e4) (take k ro') = alternates (heap e) (take k ro')"
    by (rule alternates_cong) (use h4_fields in_ro' in \<open>auto dest: in_set_takeD\<close>)
  have alts_split: "alternates (heap e) (take (Suc k) ro)
                      = (case alt of Some a \<Rightarrow> [a] | None \<Rightarrow> []) @ alternates (heap e) (take k ro')"
    by (cases ro) (auto simp: alt_def ro'_def alternates_Cons alternates_def split: option.splits)
  have A5: "distinct (alternates (heap e4) (take k ro'))"
    using Suc.prems(5) unfolding alts' alts_split by (auto split: option.splits)
  have A6: "\<forall>a \<in> set (alternates (heap e4) (take k ro')).
              a < next_ref e4 \<and> a \<noteq> w \<and> a \<notin> set ro' \<and> a \<notin> insert n P"
  proof
    fix a assume a: "a \<in> set (alternates (heap e4) (take k ro'))"
    then have a0: "a \<in> set (alternates (heap e) (take (Suc k) ro))"
      unfolding alts' alts_split by simp
    with Suc.prems(6) have b: "a < next_ref e \<and> a \<noteq> w \<and> a \<notin> set ro \<and> a \<notin> P" by blast
    have "a \<noteq> n"
    proof (cases alt)
      case None
      with n_props b show ?thesis by auto
    next
      case (Some a')
      with n_props have "n = a'" by simp
      moreover from Suc.prems(5) Some a have "a \<noteq> a'"
        unfolding alts' alts_split by auto
      ultimately show ?thesis by simp
    qed
    with b set_ro' n_props nr4 show "a < next_ref e4 \<and> a \<noteq> w \<and> a \<notin> set ro' \<and> a \<notin> insert n P"
      by auto
  qed
  have up: "x < next_ref e \<Longrightarrow> x < next_ref e4" for x using n_props nr4 by simp
  have ro'_lt: "x \<in> set ro' \<Longrightarrow> x < next_ref e" for x using Suc.prems(8) set_ro' by blast
  have A7: "w < next_ref e4" "\<forall>x \<in> set ro'. x < next_ref e4" "\<forall>x \<in> insert n P. x < next_ref e4"
  proof -
    show "w < next_ref e4" using Suc.prems(7) by (rule up)
    show "\<forall>x \<in> set ro'. x < next_ref e4" using ro'_lt up by blast
    have "n < next_ref e4" using n_props nr4 by simp
    then show "\<forall>x \<in> insert n P. x < next_ref e4" using Suc.prems(9) up by blast
  qed
  have A8: "w \<notin> insert n P" "insert n P \<inter> set ro' = {}"
    using Suc.prems(10,11) n_props set_ro' by auto
  have A9: "0 < i + 1 \<longrightarrow> i + 1 < length els \<longrightarrow> (\<exists>p. Some n = Some p \<and> p \<in> insert n P)" by simp
  have i1: "i + 1 \<le> length els" using il by simp
  from Suc.IH[OF k i1 A3 A4 A5 A6 A7 A8 A9] obtain e' ns where
    l: "reconcile_loop w els (i + 1) old' (Some n) e4 = Some (Inr e')"
    and len: "length ns = k"
    and cw: "child (heap e' w) = child (heap e4 w)"
    and cn: "i + 1 < length els \<Longrightarrow> sib_chain (heap e') (sibling (heap e' n)) ns
                               \<and> effect_tag (heap e' n) = effect_tag (heap e4 n)"
    and fr: "\<And>x. x \<in> insert n P \<Longrightarrow> (i + 1 < length els \<and> Some n = Some x) \<or> heap e' x = heap e4 x"
    and tg: "map (\<lambda>n. effect_tag (heap e' n)) ns
          = replicate (min k (length ro')) (Some UPDATE) @ replicate (k - length ro') (Some PLACEMENT)"
    and dl: "deletions e' = deletions e4 @ drop k ro'"
    and dt: "\<forall>d \<in> set (drop k ro'). effect_tag (heap e' d) = Some DELETION"
    by auto
  have loop: "reconcile_loop w els i old ps e = Some (Inr e')"
    using il step l by (subst reconcile_loop.simps) simp
  \<comment> \<open>the new fiber heads the chain\<close>
  have tail: "sib_chain (heap e') (sibling (heap e' n)) ns \<and> effect_tag (heap e' n) = effect_tag cf"
  proof (cases "i + 1 < length els")
    case True
    from cn[OF True] h4_n show ?thesis by simp
  next
    case False
    with fr[of n] have "heap e' n = heap e4 n" by simp
    moreover from False k len have "ns = []" by simp
    ultimately show ?thesis using h4_n by simp
  qed
  have fr_old: "heap e' x = heap e4 x" if "x \<in> P" for x
  proof -
    from that n_props have "x \<noteq> n" by auto
    with fr[of x] that show ?thesis by auto
  qed
  have c1: "i = 0 \<longrightarrow> sib_chain (heap e') (child (heap e' w)) (n # ns)"
  proof
    assume "i = 0"
    then have "child (heap e4 w) = Some n" by (simp add: e4_def linked_def)
    with cw tail show "sib_chain (heap e') (child (heap e' w)) (n # ns)" by simp
  qed
  have c2: "0 < i \<longrightarrow> child (heap e' w) = child (heap e w)"
  proof
    assume i0: "0 < i"
    with Suc.prems(12) il obtain p where p: "ps = Some p" "p \<in> P" by auto
    with Suc.prems(10) have "p \<noteq> w" by auto
    with i0 p n_props have "child (heap e4 w) = child (heap e w)"
      by (simp add: e4_def linked_def hE)
    with cw show "child (heap e' w) = child (heap e w)" by simp
  qed
  have c3: "0 < i \<longrightarrow> (\<forall>p. ps = Some p \<longrightarrow> sib_chain (heap e') (sibling (heap e' p)) (n # ns)
                               \<and> effect_tag (heap e' p) = effect_tag (heap e p))"
  proof (intro impI allI)
    fix p assume i0: "0 < i" and p: "ps = Some p"
    with pP have pin: "p \<in> P" by auto
    with n_props have pn: "p \<noteq> n" by auto
    from i0 p pn have "sibling (heap e4 p) = Some n \<and> effect_tag (heap e4 p) = effect_tag (heap e p)"
      by (simp add: e4_def linked_def hE)
    with fr_old[OF pin] tail
    show "sib_chain (heap e') (sibling (heap e' p)) (n # ns)
            \<and> effect_tag (heap e' p) = effect_tag (heap e p)" by simp
  qed
  have c4: "\<forall>x \<in> P. (0 < i \<and> i < length els \<and> ps = Some x) \<or> heap e' x = heap e x"
  proof
    fix x assume x: "x \<in> P"
    show "(0 < i \<and> i < length els \<and> ps = Some x) \<or> heap e' x = heap e x"
    proof (cases "0 < i \<and> ps = Some x")
      case True
      with il show ?thesis by simp
    next
      case False
      from x n_props Suc.prems(10) have xn: "x \<noteq> n" "x \<noteq> w" by auto
      have "heap e4 x = heap e x"
      proof (cases "i = 0")
        case True
        with xn show ?thesis by (simp add: e4_def linked_def hE)
      next
        case False
        with \<open>\<not> (0 < i \<and> ps = Some x)\<close> have "\<forall>p. ps = Some p \<longrightarrow> x \<noteq> p" by auto
        with xn show ?thesis by (intro h4_other) auto
      qed
      with fr_old[OF x] show ?thesis by simp
    qed
  qed
  have c5: "map (\<lambda>n. effect_tag (heap e' n)) (n # ns)
          = replicate (min (Suc k) (length ro)) (Some UPDATE) @ replicate (Suc k - length ro) (Some PLACEMENT)"
  proof (cases ro)
    case Nil
    then have "ro' = []" by (simp add: ro'_def)
    with Nil tg tail show ?thesis by (simp add: cf_def)
  next
    case (Cons ol rs)
    then have "ro' = rs" by (simp add: ro'_def)
    with Cons tg tail show ?thesis by (simp add: cf_def)
  qed
  have dr: "drop (Suc k) ro = drop k ro'" by (cases ro) (simp_all add: ro'_def)
  have c6: "deletions e' = deletions e @ drop (Suc k) ro"
    using dl d4 dr by simp
  have c7: "\<forall>d \<in> set (drop (Suc k) ro). effect_tag (heap e' d) = Some DELETION"
    using dt dr by simp
  show ?case
    apply (rule exI[of _ e'], rule exI[of _ "n # ns"])
    using loop len c1 c2 c3 c4 c5 c6 c7 il by simp
qed

lemma watchers_only:
  "next_ref (clear_old_watcher oc (watch_props w e)) = next_ref e"
  "deletions (clear_old_watcher oc (watch_props w e)) = deletions e"
  "sibling (heap (clear_old_watcher oc (watch_props w e)) x) = sibling (heap e x)"
  "child (heap (clear_old_watcher oc (watch_props w e)) x) = child (heap e x)"
  "type (heap (clear_old_watcher oc (watch_props w e)) x) = type (heap e x)"
  "alternate (heap (clear_old_watcher oc (watch_props w e)) x) = alternate (heap e x)"
  by (simp_all add: clear_old_watcher_def watch_props_def upd_def split: option.splits)

lemma count_tagged:
  assumes "map (\<lambda>n. effect_tag (h n)) ns = replicate a (Some UPDATE) @ replicate b (Some PLACEMENT)"
  shows "length (tagged h UPDATE ns) = a \<and> length (tagged h PLACEMENT ns) = b"
proof -
  have "length (tagged h t ns) = length (filter (\<lambda>x. x = Some t) (map (\<lambda>n. effect_tag (h n)) ns))" for t
    by (simp add: tagged_def filter_map comp_def)
  then show ?thesis unfolding assms by simp
qed

lemmas scenario_defs = second_pass_def box_with_def unit_of_work_spec_def engine_of_def
  plain_enum_def box_def

text \<open>
  C1. A description list of length N is reconciled against an old child chain of
  length M with the same types at the first min(N,M) positions (the fibers being
  allocated, and the alternates to be reused fibers of their own). Then
  \<open>reconcile_children\<close> returns, the parent's new child chain has N fibers, of which
  exactly min(N,M) are tagged UPDATE and exactly N-M (0 if M exceeds N) PLACEMENT, and
  exactly M-N old fibers (0 if N exceeds M), each tagged DELETION, are appended to
  the deletions list.
\<close>

theorem reconcile_children_counts:
  assumes chain: "sib_chain (heap e) (old_child (heap e) w) os"
    and types: "same_types (heap e) os els"
    and reuse: "reusable e w os (take (length els) os)"
    and alloc: "w < next_ref e" "list_all (\<lambda>x. x < next_ref e) os"
    and fresh: "els = [] \<and> os = [] \<longrightarrow> child (heap e w) = None"
  shows "\<exists>e' ns ds. reconcile_children w els e = Some (Inr e')
     \<and> sib_chain (heap e') (child (heap e' w)) ns \<and> length ns = length els
     \<and> length (tagged (heap e') UPDATE ns) = min (length els) (length os)
     \<and> length (tagged (heap e') PLACEMENT ns) = length els - length os
     \<and> deletions e' = deletions e @ ds \<and> length ds = length os - length els
     \<and> set ds \<subseteq> set os \<and> list_all (\<lambda>d. effect_tag (heap e' d) = Some DELETION) ds"
proof -
  define e2 where "e2 = clear_old_watcher (old_child (heap e) w) (watch_props w e)"
  note wo = watchers_only[of "old_child (heap e) w" w e, folded e2_def]
  have rc: "reconcile_children w els e = reconcile_loop w els 0 (old_child (heap e) w) None e2"
    by (simp add: reconcile_children_def e2_def)
  have B3: "sib_chain (heap e2) (old_child (heap e) w) os"
    using chain sib_chain_cong[of os "heap e2" "heap e"] wo(3) by simp
  have B4: "\<forall>j < min (length els) (length os). type (heap e2 (os ! j)) = Some (vtype (els ! (0 + j)))"
    using types by (auto simp: same_types_def list_all_length wo(5))
  have al: "alternates (heap e2) (take (length els) os) = alternates (heap e) (take (length els) os)"
    by (rule alternates_cong) (simp add: wo(6))
  have B5: "distinct (alternates (heap e2) (take (length els) os))"
    using reuse by (simp add: reusable_def al)
  have B6: "\<forall>a \<in> set (alternates (heap e2) (take (length els) os)).
              a < next_ref e2 \<and> a \<noteq> w \<and> a \<notin> set os \<and> a \<notin> {}"
    using reuse by (simp add: reusable_def al wo(1) list_all_iff)
  have B7: "w < next_ref e2" "\<forall>x \<in> set os. x < next_ref e2" "\<forall>x \<in> {}. x < next_ref e2"
    using alloc by (simp_all add: wo(1) list_all_iff)
  have "\<exists>e' ns. reconcile_loop w els 0 (old_child (heap e) w) None e2 = Some (Inr e')
     \<and> length ns = length els
     \<and> (els \<noteq> [] \<or> os \<noteq> [] \<longrightarrow> sib_chain (heap e') (child (heap e' w)) ns)
     \<and> map (\<lambda>n. effect_tag (heap e' n)) ns
          = replicate (min (length els) (length os)) (Some UPDATE)
            @ replicate (length els - length os) (Some PLACEMENT)
     \<and> deletions e' = deletions e2 @ drop (length els) os
     \<and> (\<forall>d \<in> set (drop (length els) os). effect_tag (heap e' d) = Some DELETION)"
    using main_loop[where k="length els" and els=els and i=0 and e=e2
        and old="old_child (heap e) w" and ro=os and w=w and P="{}" and ps=None]
      B3 B4 B5 B6 B7
    by simp
  then obtain e' ns where
    l: "reconcile_loop w els 0 (old_child (heap e) w) None e2 = Some (Inr e')"
    and len: "length ns = length els"
    and ch: "els \<noteq> [] \<or> os \<noteq> [] \<Longrightarrow> sib_chain (heap e') (child (heap e' w)) ns"
    and tg: "map (\<lambda>n. effect_tag (heap e' n)) ns
          = replicate (min (length els) (length os)) (Some UPDATE)
            @ replicate (length els - length os) (Some PLACEMENT)"
    and dl: "deletions e' = deletions e2 @ drop (length els) os"
    and dt: "\<forall>d \<in> set (drop (length els) os). effect_tag (heap e' d) = Some DELETION"
    by auto
  have ch': "sib_chain (heap e') (child (heap e' w)) ns"
  proof (cases "els \<noteq> [] \<or> os \<noteq> []")
    case True
    then show ?thesis by (rule ch)
  next
    case False
    then have "reconcile_loop w els 0 (old_child (heap e) w) None e2 = Some (Inr e2)"
      using chain by (subst reconcile_loop.simps) simp
    with l have "e' = e2" by simp
    with False fresh len show ?thesis by (simp add: wo(4))
  qed
  show ?thesis
    apply (rule exI[of _ e'], rule exI[of _ ns], rule exI[of _ "drop (length els) os"])
    using rc l len ch' count_tagged[OF tg] dl dt
    by (auto simp: wo(2) list_all_iff dest: in_set_dropD)
qed

theorem reconcile_children_counts_witness:
  "sib_chain (heap (second_pass [VNode (Host ''a'') [] [] None]))
      (old_child (heap (second_pass [VNode (Host ''a'') [] [] None])) 5) [2, 3]
   \<and> same_types (heap (second_pass [VNode (Host ''a'') [] [] None])) [2, 3] [VNode (Host ''a'') [] [] None]
   \<and> reusable (second_pass [VNode (Host ''a'') [] [] None]) 5 [2, 3] (take 1 [2, 3])
   \<and> 5 < next_ref (second_pass [VNode (Host ''a'') [] [] None])
   \<and> list_all (\<lambda>x. x < next_ref (second_pass [VNode (Host ''a'') [] [] None])) [2, 3]
   \<and> observe (\<lambda>e'. (child (heap e' 5), sibling (heap e' 6), tagged (heap e') UPDATE [6],
                     tagged (heap e') PLACEMENT [6], deletions e', tagged (heap e') DELETION [3]))
        (reconcile_children 5 [VNode (Host ''a'') [] [] None] (second_pass [VNode (Host ''a'') [] [] None]))
      = Some (Inr (Some 6, None, [6], [], [3], [3]))"
proof -
  define els where "els = [VNode (Host ''a'') [] [] None]"
  define e where "e = second_pass els"
  have ev: "old_child (heap e) 5 = Some 2" "sibling (heap e 2) = Some 3" "sibling (heap e 3) = None"
    "type (heap e 2) = Some (Host ''a'')" "alternate (heap e 2) = None" "next_ref e = 6"
    "deletions e = []"
    unfolding e_def els_def
    by (simp_all add: scenario_defs engine_defs update_dom_defs)
  have h1: "sib_chain (heap e) (old_child (heap e) 5) [2, 3]" by (simp add: ev)
  have h2: "same_types (heap e) [2, 3] els" by (simp add: same_types_def ev els_def)
  have h3: "reusable e 5 [2, 3] (take (length els) [2, 3])"
    by (simp add: reusable_def alternates_def ev els_def)
  have h4: "5 < next_ref e" "list_all (\<lambda>x. x < next_ref e) [2, 3]" by (simp_all add: ev)
  have h5: "els = [] \<and> [2, 3] = ([]::ref list) \<longrightarrow> child (heap e 5) = None" by simp
  from reconcile_children_counts[OF h1 h2 h3 h4 h5] obtain e' ns ds where
    r: "reconcile_children 5 els e = Some (Inr e')"
    and c: "sib_chain (heap e') (child (heap e' 5)) ns" "length ns = length els"
    and u: "length (tagged (heap e') UPDATE ns) = min (length els) (length [2, 3::ref])"
    and p: "length (tagged (heap e') PLACEMENT ns) = length els - length [2, 3::ref]"
    and d: "deletions e' = deletions e @ ds" "length ds = length [2, 3::ref] - length els"
       "set ds \<subseteq> set [2, 3]" "list_all (\<lambda>d. effect_tag (heap e' d) = Some DELETION) ds"
    by blast
  have "observe (\<lambda>e'. (child (heap e' 5), sibling (heap e' 6), tagged (heap e') UPDATE [6],
                     tagged (heap e') PLACEMENT [6], deletions e', tagged (heap e') DELETION [3]))
        (reconcile_children 5 els e) = Some (Inr (Some 6, None, [6], [], [3], [3]))"
    unfolding e_def els_def
    by (simp add: scenario_defs engine_defs update_dom_defs tagged_def)
  with h1 h2 h3 h4 r show ?thesis unfolding e_def els_def by simp
qed

end
